theory Spec2Isabelle
  imports Complex_Main "HOL-Library.Multiset"
begin

section \<open>Disk-head scheduling: FCFS, SSTF, SCAN and C-SCAN\<close>

text \<open>
  A shallow embedding of the four scheduling methods of class \<open>Disk\<close> in
  \<^verbatim>\<open>disksimulation.py\<close> and of \<open>scan_schedule\<close> and \<open>c_scan_schedule\<close>
  in \<^verbatim>\<open>workload_starvation_demo.py\<close>.  Python integers are unbounded, so
  cylinders and movements are \<^typ>\<open>int\<close>.  The \<^verbatim>\<open>print\<close> calls and the
  counter \<^verbatim>\<open>step\<close>, which is only printed, are left out.
\<close>

subsection \<open>Python built-ins that can raise\<close>

datatype py_error = ValueError | ZeroDivisionError | OverflowError

text \<open>\<^verbatim>\<open>min(xs)\<close> and \<^verbatim>\<open>max(xs)\<close>: \<^verbatim>\<open>ValueError\<close> on an empty list; the
  running best is replaced only by a strictly better element.\<close>

fun py_min :: "int list \<Rightarrow> py_error + int" where
  "py_min [] = Inl ValueError"
| "py_min (x # xs) = Inr (foldl (\<lambda>best y. if y < best then y else best) x xs)"

fun py_max :: "int list \<Rightarrow> py_error + int" where
  "py_max [] = Inl ValueError"
| "py_max (x # xs) = Inr (foldl (\<lambda>best y. if y > best then y else best) x xs)"

text \<open>\<^verbatim>\<open>min(xs, key=key)\<close>: the first element whose key is minimal.\<close>

fun py_min_key :: "(int \<Rightarrow> int) \<Rightarrow> int list \<Rightarrow> py_error + int" where
  "py_min_key key [] = Inl ValueError"
| "py_min_key key (x # xs) =
     Inr (foldl (\<lambda>best y. if key y < key best then y else best) x xs)"

text \<open>\<^verbatim>\<open>xs.remove(x)\<close>: deletes the first occurrence, \<^verbatim>\<open>ValueError\<close> when
  there is none.\<close>

definition py_remove :: "int \<Rightarrow> int list \<Rightarrow> py_error + int list" where
  "py_remove x xs = (if x \<in> set xs then Inr (remove1 x xs) else Inl ValueError)"

text \<open>\<^verbatim>\<open>a / b\<close> on integers: true division.  \<^verbatim>\<open>ZeroDivisionError\<close> when
  \<open>b = 0\<close>.  \<^verbatim>\<open>OverflowError\<close> when the quotient, rounded to a double (53 bits,
  ties to even), is beyond the largest double \<open>2 ^ 1024 - 2 ^ 971\<close>, that is when its
  magnitude is at least \<open>2 ^ 1024 - 2 ^ 970\<close>.  Otherwise Python returns the double
  nearest to the quotient; the value kept here is the quotient itself, not rounded.\<close>

definition double_overflow :: "real \<Rightarrow> bool" where
  "double_overflow x \<longleftrightarrow> \<bar>x\<bar> \<ge> 2 ^ 1024 - 2 ^ 970"

definition py_truediv :: "int \<Rightarrow> int \<Rightarrow> py_error + real" where
  "py_truediv a b =
     (if b = 0 then Inl ZeroDivisionError
      else if double_overflow (real_of_int a / real_of_int b) then Inl OverflowError
      else Inr (real_of_int a / real_of_int b))"

subsection \<open>The disk, the local variables of a run, the result\<close>

record Disk =
  total_cylinders :: int
  current_head :: int
  request_queue :: "int list"
  original_requests :: "int list"

text \<open>\<^verbatim>\<open>Disk.__init__\<close>: the fields are stored as they come, nothing is checked.\<close>

definition Disk_init :: "int \<Rightarrow> int \<Rightarrow> int list \<Rightarrow> Disk" where
  "Disk_init total_cylinders' start_head request_queue' =
     \<lparr>total_cylinders = total_cylinders', current_head = start_head,
      request_queue = request_queue', original_requests = request_queue'\<rparr>"

text \<open>The local variables of a scheduling method; field \<open>v_x\<close> is the local \<open>x\<close>.
  SCAN and C-SCAN have \<open>current_direction\<close> in addition.\<close>

record locals =
  v_current_head :: int
  v_requests :: "int list"
  v_total_movement :: int
  v_sequence :: "int list"
  v_movements :: "int list"

record dlocals = locals +
  v_current_direction :: string

text \<open>The returned dictionary; FCFS and SSTF return no key \<open>direction\<close>.\<close>

record ScheduleResult =
  algorithm :: string
  total_movement :: int
  average_seek :: real
  sequence :: "int list"
  movements :: "int list"
  final_position :: int
  direction :: "string option"

text \<open>\<^verbatim>\<open>total_movement / len(q) if q else 0\<close>\<close>

definition average :: "int \<Rightarrow> int list \<Rightarrow> py_error + real" where
  "average movement_sum q =
     (if q \<noteq> [] then py_truediv movement_sum (int (length q)) else Inr 0)"

text \<open>The common tail of the four methods: the average and the dictionary.\<close>

definition finish :: "string \<Rightarrow> string option \<Rightarrow> int list \<Rightarrow> 'a locals_scheme \<Rightarrow> py_error + ScheduleResult" where
  "finish name dir q v =
     (case average (v_total_movement v) q of
        Inl e \<Rightarrow> Inl e
      | Inr average_seek' \<Rightarrow>
          Inr \<lparr>algorithm = name, total_movement = v_total_movement v,
               average_seek = average_seek', sequence = v_sequence v,
               movements = v_movements v, final_position = v_current_head v,
               direction = dir\<rparr>)"

subsection \<open>FCFS\<close>

text \<open>The \<^verbatim>\<open>for\<close> loop over the copy of the queue.\<close>

fun fcfs_loop :: "int list \<Rightarrow> locals \<Rightarrow> locals" where
  "fcfs_loop [] v = v"
| "fcfs_loop (request # rest) v =
     (let movement = \<bar>v_current_head v - request\<bar> in
      fcfs_loop rest
        (v\<lparr>v_total_movement := v_total_movement v + movement,
           v_sequence := v_sequence v @ [request],
           v_movements := v_movements v @ [movement],
           v_current_head := request\<rparr>))"

definition fcfs_schedule :: "Disk \<Rightarrow> py_error + ScheduleResult" where
  "fcfs_schedule self =
     (let requests = request_queue self;
          v = fcfs_loop requests
                \<lparr>v_current_head = current_head self, v_requests = requests,
                 v_total_movement = 0, v_sequence = [], v_movements = []\<rparr>
      in finish ''FCFS'' None requests v)"

subsection \<open>SSTF\<close>

text \<open>One iteration of the \<^verbatim>\<open>while requests:\<close> loop.\<close>

definition sstf_step :: "locals \<Rightarrow> py_error + locals" where
  "sstf_step v =
     (case py_min_key (\<lambda>x. \<bar>x - v_current_head v\<bar>) (v_requests v) of
        Inl e \<Rightarrow> Inl e
      | Inr closest_request \<Rightarrow>
          (let movement = \<bar>v_current_head v - closest_request\<bar> in
           case py_remove closest_request (v_requests v) of
             Inl e \<Rightarrow> Inl e
           | Inr requests' \<Rightarrow>
               Inr (v\<lparr>v_total_movement := v_total_movement v + movement,
                      v_sequence := v_sequence v @ [closest_request],
                      v_movements := v_movements v @ [movement],
                      v_current_head := closest_request,
                      v_requests := requests'\<rparr>)))"

lemma py_remove_length:
  "py_remove x xs = Inr ys \<Longrightarrow> length ys < length xs"
  using length_pos_if_in_set [of x xs]
  by (auto simp: py_remove_def length_remove1 split: if_splits)

lemma sstf_step_length:
  "sstf_step v = Inr v' \<Longrightarrow> length (v_requests v') < length (v_requests v)"
  by (auto simp: sstf_step_def Let_def split: sum.splits dest: py_remove_length)

function sstf_loop :: "locals \<Rightarrow> py_error + locals" where
  "sstf_loop v =
     (if v_requests v \<noteq> [] then
        (case sstf_step v of Inl e \<Rightarrow> Inl e | Inr v' \<Rightarrow> sstf_loop v')
      else Inr v)"
  by pat_completeness auto
termination
  by (relation "measure (\<lambda>v. length (v_requests v))") (auto dest: sstf_step_length)

definition sstf_schedule :: "Disk \<Rightarrow> py_error + ScheduleResult" where
  "sstf_schedule self =
     (case sstf_loop \<lparr>v_current_head = current_head self, v_requests = request_queue self,
                      v_total_movement = 0, v_sequence = [], v_movements = []\<rparr> of
        Inl e \<Rightarrow> Inl e
      | Inr v \<Rightarrow> finish ''SSTF'' None (request_queue self) v)"

subsection \<open>SCAN\<close>

text \<open>One iteration of the \<^verbatim>\<open>while requests:\<close> loop.  Every direction other
  than \<^verbatim>\<open>'right'\<close> takes the \<^verbatim>\<open>else\<close> branch.\<close>

definition scan_step :: "Disk \<Rightarrow> dlocals \<Rightarrow> py_error + dlocals" where
  "scan_step self v =
     (if v_current_direction v = ''right'' then
        (let right_requests = filter (\<lambda>r. r \<ge> v_current_head v) (v_requests v) in
         if right_requests \<noteq> [] then
           (case py_min right_requests of
              Inl e \<Rightarrow> Inl e
            | Inr next_request \<Rightarrow>
                (let movement = \<bar>v_current_head v - next_request\<bar> in
                 case py_remove next_request (v_requests v) of
                   Inl e \<Rightarrow> Inl e
                 | Inr requests' \<Rightarrow>
                     Inr (v\<lparr>v_total_movement := v_total_movement v + movement,
                            v_sequence := v_sequence v @ [next_request],
                            v_movements := v_movements v @ [movement],
                            v_current_head := next_request,
                            v_requests := requests'\<rparr>)))
         else
           (let movement = \<bar>v_current_head v - (total_cylinders self - 1)\<bar> in
            Inr (v\<lparr>v_total_movement := v_total_movement v + movement,
                   v_sequence := v_sequence v @ [total_cylinders self - 1],
                   v_movements := v_movements v @ [movement],
                   v_current_head := total_cylinders self - 1,
                   v_current_direction := ''left''\<rparr>)))
      else
        (let left_requests = filter (\<lambda>r. r \<le> v_current_head v) (v_requests v) in
         if left_requests \<noteq> [] then
           (case py_max left_requests of
              Inl e \<Rightarrow> Inl e
            | Inr next_request \<Rightarrow>
                (let movement = \<bar>v_current_head v - next_request\<bar> in
                 case py_remove next_request (v_requests v) of
                   Inl e \<Rightarrow> Inl e
                 | Inr requests' \<Rightarrow>
                     Inr (v\<lparr>v_total_movement := v_total_movement v + movement,
                            v_sequence := v_sequence v @ [next_request],
                            v_movements := v_movements v @ [movement],
                            v_current_head := next_request,
                            v_requests := requests'\<rparr>)))
         else
           (let movement = \<bar>v_current_head v - 0\<bar> in
            Inr (v\<lparr>v_total_movement := v_total_movement v + movement,
                   v_sequence := v_sequence v @ [0],
                   v_movements := v_movements v @ [movement],
                   v_current_head := 0,
                   v_current_direction := ''right''\<rparr>))))"

text \<open>The loop may run forever (\<open>None\<close>): nothing bounds the number of
  direction changes when a request lies outside the cylinder range.\<close>

partial_function (option) scan_loop :: "Disk \<Rightarrow> dlocals \<Rightarrow> (py_error + dlocals) option" where
  "scan_loop self v =
     (if v_requests v \<noteq> [] then
        (case scan_step self v of Inl e \<Rightarrow> Some (Inl e) | Inr v' \<Rightarrow> scan_loop self v')
      else Some (Inr v))"

declare scan_loop.simps [code]

definition scan_schedule :: "Disk \<Rightarrow> string \<Rightarrow> (py_error + ScheduleResult) option" where
  "scan_schedule self direction' =
     (case scan_loop self
             \<lparr>v_current_head = current_head self, v_requests = request_queue self,
              v_total_movement = 0, v_sequence = [], v_movements = [],
              v_current_direction = direction'\<rparr> of
        None \<Rightarrow> None
      | Some (Inl e) \<Rightarrow> Some (Inl e)
      | Some (Inr v) \<Rightarrow> Some (finish ''SCAN'' (Some direction') (request_queue self) v))"

subsection \<open>C-SCAN\<close>

text \<open>One iteration.  The jump adds \<open>total_cylinders - 1\<close> to the total and
  moves the head; it appends nothing to \<open>sequence\<close> and \<open>movements\<close>.\<close>

definition c_scan_step :: "Disk \<Rightarrow> dlocals \<Rightarrow> py_error + dlocals" where
  "c_scan_step self v =
     (if v_current_direction v = ''right'' then
        (let right_requests = filter (\<lambda>r. r \<ge> v_current_head v) (v_requests v) in
         if right_requests \<noteq> [] then
           (case py_min right_requests of
              Inl e \<Rightarrow> Inl e
            | Inr next_request \<Rightarrow>
                (let movement = \<bar>v_current_head v - next_request\<bar> in
                 case py_remove next_request (v_requests v) of
                   Inl e \<Rightarrow> Inl e
                 | Inr requests' \<Rightarrow>
                     Inr (v\<lparr>v_total_movement := v_total_movement v + movement,
                            v_sequence := v_sequence v @ [next_request],
                            v_movements := v_movements v @ [movement],
                            v_current_head := next_request,
                            v_requests := requests'\<rparr>)))
         else
           (let movement_to_end = \<bar>v_current_head v - (total_cylinders self - 1)\<bar>;
                jump_movement = total_cylinders self - 1 in
            Inr (v\<lparr>v_total_movement := v_total_movement v + movement_to_end + jump_movement,
                   v_sequence := v_sequence v @ [total_cylinders self - 1],
                   v_movements := v_movements v @ [movement_to_end],
                   v_current_head := 0\<rparr>)))
      else
        (let left_requests = filter (\<lambda>r. r \<le> v_current_head v) (v_requests v) in
         if left_requests \<noteq> [] then
           (case py_max left_requests of
              Inl e \<Rightarrow> Inl e
            | Inr next_request \<Rightarrow>
                (let movement = \<bar>v_current_head v - next_request\<bar> in
                 case py_remove next_request (v_requests v) of
                   Inl e \<Rightarrow> Inl e
                 | Inr requests' \<Rightarrow>
                     Inr (v\<lparr>v_total_movement := v_total_movement v + movement,
                            v_sequence := v_sequence v @ [next_request],
                            v_movements := v_movements v @ [movement],
                            v_current_head := next_request,
                            v_requests := requests'\<rparr>)))
         else
           (let movement_to_start = \<bar>v_current_head v - 0\<bar>;
                jump_movement = total_cylinders self - 1 in
            Inr (v\<lparr>v_total_movement := v_total_movement v + movement_to_start + jump_movement,
                   v_sequence := v_sequence v @ [0],
                   v_movements := v_movements v @ [movement_to_start],
                   v_current_head := total_cylinders self - 1\<rparr>))))"

partial_function (option) c_scan_loop :: "Disk \<Rightarrow> dlocals \<Rightarrow> (py_error + dlocals) option" where
  "c_scan_loop self v =
     (if v_requests v \<noteq> [] then
        (case c_scan_step self v of Inl e \<Rightarrow> Some (Inl e) | Inr v' \<Rightarrow> c_scan_loop self v')
      else Some (Inr v))"

declare c_scan_loop.simps [code]

definition c_scan_schedule :: "Disk \<Rightarrow> string \<Rightarrow> (py_error + ScheduleResult) option" where
  "c_scan_schedule self direction' =
     (case c_scan_loop self
             \<lparr>v_current_head = current_head self, v_requests = request_queue self,
              v_total_movement = 0, v_sequence = [], v_movements = [],
              v_current_direction = direction'\<rparr> of
        None \<Rightarrow> None
      | Some (Inl e) \<Rightarrow> Some (Inl e)
      | Some (Inr v) \<Rightarrow> Some (finish ''C-SCAN'' (Some direction') (request_queue self) v))"

subsection \<open>The second implementation (workload\_starvation\_demo.py)\<close>

text \<open>Its loops \<^verbatim>\<open>for r in ...\<close> over \<open>(current_head, total_movement, sequence)\<close>.\<close>

fun demo_for :: "int list \<Rightarrow> int \<times> int \<times> int list \<Rightarrow> int \<times> int \<times> int list" where
  "demo_for [] st = st"
| "demo_for (r # rs) (current_head', total_movement', sequence') =
     demo_for rs (r, total_movement' + \<bar>current_head' - r\<bar>, sequence' @ [r])"

definition demo_scan_schedule :: "Disk \<Rightarrow> string \<Rightarrow> int \<times> int list" where
  "demo_scan_schedule self direction' =
     (let current_head' = current_head self;
          requests = sort (request_queue self) in
      if direction' = ''right'' then
        (let right = filter (\<lambda>r. r \<ge> current_head') requests;
             left = rev (filter (\<lambda>r. r < current_head') requests)
         in snd (demo_for (right @ left) (current_head', 0, [])))
      else
        (let left = rev (filter (\<lambda>r. r \<le> current_head') requests);
             right = filter (\<lambda>r. r > current_head') requests
         in snd (demo_for (left @ right) (current_head', 0, []))))"

definition demo_c_scan_schedule :: "Disk \<Rightarrow> string \<Rightarrow> int \<times> int list" where
  "demo_c_scan_schedule self direction' =
     (let current_head' = current_head self;
          requests = sort (request_queue self) in
      if direction' = ''right'' then
        (let right = filter (\<lambda>r. r \<ge> current_head') requests;
             left = filter (\<lambda>r. r < current_head') requests;
             (current_head'', total_movement', sequence') =
                demo_for right (current_head', 0, [])
         in if left \<noteq> [] then
              snd (demo_for left
                     (0, total_movement' + \<bar>current_head'' - (total_cylinders self - 1)\<bar>,
                      sequence'))
            else (total_movement', sequence'))
      else (0, []))"

subsection \<open>Notions used in the statements and in the proofs\<close>

text \<open>Re-walking a sequence of cylinders from a head position: the distance of
  each move.\<close>

fun rewalk :: "int \<Rightarrow> int list \<Rightarrow> int list" where
  "rewalk h [] = []"
| "rewalk h (x # xs) = \<bar>h - x\<bar> # rewalk x xs"

text \<open>Valid inputs: a positive number of cylinders; the head and every request
  within \<open>0 .. total_cylinders - 1\<close>.\<close>

definition valid :: "Disk \<Rightarrow> bool" where
  "valid self \<longleftrightarrow>
     0 < total_cylinders self \<and>
     0 \<le> current_head self \<and> current_head self < total_cylinders self \<and>
     list_all (\<lambda>r. 0 \<le> r \<and> r < total_cylinders self) (request_queue self)"

text \<open>The state after servicing request \<open>x\<close>, after visiting a boundary \<open>b\<close>;
  whether the current direction has a request left, and which one is next.\<close>

definition serve :: "int \<Rightarrow> 'a locals_scheme \<Rightarrow> 'a locals_scheme" where
  "serve x v =
     v\<lparr>v_total_movement := v_total_movement v + \<bar>v_current_head v - x\<bar>,
       v_sequence := v_sequence v @ [x],
       v_movements := v_movements v @ [\<bar>v_current_head v - x\<bar>],
       v_current_head := x,
       v_requests := remove1 x (v_requests v)\<rparr>"

definition visit :: "int \<Rightarrow> 'a locals_scheme \<Rightarrow> 'a locals_scheme" where
  "visit b v =
     v\<lparr>v_total_movement := v_total_movement v + \<bar>v_current_head v - b\<bar>,
       v_sequence := v_sequence v @ [b],
       v_movements := v_movements v @ [\<bar>v_current_head v - b\<bar>],
       v_current_head := b\<rparr>"

definition serviceable :: "dlocals \<Rightarrow> bool" where
  "serviceable v =
     (if v_current_direction v = ''right''
      then filter (\<lambda>r. r \<ge> v_current_head v) (v_requests v) \<noteq> []
      else filter (\<lambda>r. r \<le> v_current_head v) (v_requests v) \<noteq> [])"

definition next_request :: "dlocals \<Rightarrow> int" where
  "next_request v =
     (if v_current_direction v = ''right''
      then Min (set (filter (\<lambda>r. r \<ge> v_current_head v) (v_requests v)))
      else Max (set (filter (\<lambda>r. r \<le> v_current_head v) (v_requests v))))"

text \<open>The state after the boundary iteration of SCAN and of C-SCAN.\<close>

definition scan_turn :: "Disk \<Rightarrow> dlocals \<Rightarrow> dlocals" where
  "scan_turn self v =
     (if v_current_direction v = ''right''
      then (visit (total_cylinders self - 1) v)\<lparr>v_current_direction := ''left''\<rparr>
      else (visit 0 v)\<lparr>v_current_direction := ''right''\<rparr>)"

definition c_scan_jump :: "Disk \<Rightarrow> dlocals \<Rightarrow> dlocals" where
  "c_scan_jump self v =
     (if v_current_direction v = ''right''
      then (visit (total_cylinders self - 1) v)
             \<lparr>v_total_movement := v_total_movement v
                 + \<bar>v_current_head v - (total_cylinders self - 1)\<bar> + (total_cylinders self - 1),
              v_current_head := 0\<rparr>
      else (visit 0 v)
             \<lparr>v_total_movement := v_total_movement v
                 + \<bar>v_current_head v - 0\<bar> + (total_cylinders self - 1),
              v_current_head := total_cylinders self - 1\<rparr>)"

text \<open>Invariants of a run.  \<open>accounted\<close>: the movements are those of re-walking
  the sequence from the start head, the total is their sum, the head is the last
  cylinder visited.  \<open>in_range\<close>: the working copy holds valid cylinders only.
  \<open>settled\<close>: every remaining request lies in the current direction.  \<open>pool\<close>:
  the cylinders visited and the requests still waiting.  \<open>conserved\<close>: the pool is
  the original queue, or the original queue and one boundary visit, after which the
  run is settled.  \<open>rank\<close> decreases with every iteration on valid inputs.\<close>

definition accounted :: "int \<Rightarrow> 'a locals_scheme \<Rightarrow> bool" where
  "accounted h0 v \<longleftrightarrow>
     v_movements v = rewalk h0 (v_sequence v) \<and>
     v_total_movement v = sum_list (v_movements v) \<and>
     v_current_head v = last (h0 # v_sequence v)"

definition in_range :: "int \<Rightarrow> 'a locals_scheme \<Rightarrow> bool" where
  "in_range tc v \<longleftrightarrow> list_all (\<lambda>r. 0 \<le> r \<and> r < tc) (v_requests v)"

definition settled :: "dlocals \<Rightarrow> bool" where
  "settled v \<longleftrightarrow>
     (if v_current_direction v = ''right''
      then list_all (\<lambda>r. r \<ge> v_current_head v) (v_requests v)
      else list_all (\<lambda>r. r \<le> v_current_head v) (v_requests v))"

definition boundary :: "Disk \<Rightarrow> string \<Rightarrow> int" where
  "boundary self d = (if d = ''right'' then total_cylinders self - 1 else 0)"

definition pool :: "'a locals_scheme \<Rightarrow> int multiset" where
  "pool v = mset (v_sequence v) + mset (v_requests v)"

definition conserved :: "int list \<Rightarrow> int \<Rightarrow> string \<Rightarrow> dlocals \<Rightarrow> bool" where
  "conserved rs b d0 v \<longleftrightarrow>
     (pool v = mset rs \<and> (v_current_direction v = ''right'' \<longleftrightarrow> d0 = ''right'')) \<or>
     (pool v = mset rs + {#b#} \<and> settled v)"

definition rank :: "dlocals \<Rightarrow> nat" where
  "rank v = 2 * length (v_requests v) + (if serviceable v then 0 else 1)"

text \<open>The locals at the start of a method.\<close>

definition initial :: "Disk \<Rightarrow> locals" where
  "initial self =
     \<lparr>v_current_head = current_head self, v_requests = request_queue self,
      v_total_movement = 0, v_sequence = [], v_movements = []\<rparr>"

definition initial_d :: "Disk \<Rightarrow> string \<Rightarrow> dlocals" where
  "initial_d self d =
     \<lparr>v_current_head = current_head self, v_requests = request_queue self,
      v_total_movement = 0, v_sequence = [], v_movements = [], v_current_direction = d\<rparr>"

text \<open>The locals with the direction read as the loops read it: \<^verbatim>\<open>'right'\<close>, or
  anything else, which stands for left.\<close>

definition as_left :: "dlocals \<Rightarrow> dlocals" where
  "as_left v = v\<lparr>v_current_direction :=
                  (if v_current_direction v = ''right'' then ''right'' else ''left'')\<rparr>"

text \<open>The state after visiting the cylinders \<open>xs\<close> one after the other, the working
  copy becoming \<open>rest\<close>.\<close>

definition sweep :: "int list \<Rightarrow> int list \<Rightarrow> 'a locals_scheme \<Rightarrow> 'a locals_scheme" where
  "sweep xs rest v =
     v\<lparr>v_total_movement := v_total_movement v + sum_list (rewalk (v_current_head v) xs),
       v_sequence := v_sequence v @ xs,
       v_movements := v_movements v @ rewalk (v_current_head v) xs,
       v_current_head := last (v_current_head v # xs),
       v_requests := rest\<rparr>"

text \<open>Every entry of the pool beyond the \<open>n\<close> original requests is a jump of C-SCAN,
  counted in the total and not in the movements.\<close>

definition jumps_counted :: "int \<Rightarrow> nat \<Rightarrow> 'a locals_scheme \<Rightarrow> bool" where
  "jumps_counted tc n v \<longleftrightarrow>
     v_total_movement v = sum_list (v_movements v) + (tc - 1) * (int (size (pool v)) - int n)"

text \<open>The average of a total over the queue \<open>q\<close> is beyond the doubles.\<close>

definition seek_overflow :: "int \<Rightarrow> int list \<Rightarrow> bool" where
  "seek_overflow t q \<longleftrightarrow>
     q \<noteq> [] \<and> double_overflow (real_of_int t / real_of_int (int (length q)))"

text \<open>The head is a valid cylinder and no recorded movement is longer than the
  disk.\<close>

definition paced :: "int \<Rightarrow> 'a locals_scheme \<Rightarrow> bool" where
  "paced tc v \<longleftrightarrow>
     0 \<le> v_current_head v \<and> v_current_head v < tc \<and>
     0 \<le> sum_list (v_movements v) \<and>
     sum_list (v_movements v) \<le> (tc - 1) * int (length (v_sequence v))"

section \<open>Properties\<close>

declare sstf_loop.simps [simp del]

subsection \<open>The built-ins\<close>

lemma foldl_min: "foldl (\<lambda>best y. if y < best then y else best) x xs = Min (set (x # xs))"
proof (induction xs arbitrary: x)
  case Nil
  show ?case by simp
next
  case (Cons y ys)
  show ?case
  proof (cases "y < x")
    case True
    then have "min x (Min (insert y (set ys))) = Min (insert y (set ys))"
      by (intro min_absorb2) (simp add: Min_le_iff less_imp_le)
    with True Cons show ?thesis by (simp add: Min_insert)
  next
    case False
    then have "Min (insert x (insert y (set ys))) = Min (insert x (set ys))"
      by (cases "ys = []") (auto simp: min_def)
    with False Cons show ?thesis by simp
  qed
qed

lemma foldl_max: "foldl (\<lambda>best y. if y > best then y else best) x xs = Max (set (x # xs))"
proof (induction xs arbitrary: x)
  case Nil
  show ?case by simp
next
  case (Cons y ys)
  show ?case
  proof (cases "y > x")
    case True
    then have "max x (Max (insert y (set ys))) = Max (insert y (set ys))"
      by (intro max_absorb2) (simp add: Max_ge_iff less_imp_le)
    with True Cons show ?thesis by (simp add: Max_insert)
  next
    case False
    then have "Max (insert x (insert y (set ys))) = Max (insert x (set ys))"
      by (cases "ys = []") (auto simp: max_def)
    with False Cons show ?thesis by simp
  qed
qed

lemma py_min_eq: "xs \<noteq> [] \<Longrightarrow> py_min xs = Inr (Min (set xs))"
  by (cases xs) (simp_all add: foldl_min del: set_simps)

lemma py_max_eq: "xs \<noteq> [] \<Longrightarrow> py_max xs = Inr (Max (set xs))"
  by (cases xs) (simp_all add: foldl_max del: set_simps)

lemma foldl_min_key:
  fixes key :: "int \<Rightarrow> int" and x :: int
  shows "\<exists>ys zs. x # xs = ys @ foldl (\<lambda>best y. if key y < key best then y else best) x xs # zs
     \<and> (\<forall>y\<in>set ys. key (foldl (\<lambda>best y. if key y < key best then y else best) x xs) < key y)
     \<and> (\<forall>z\<in>set zs. key (foldl (\<lambda>best y. if key y < key best then y else best) x xs) \<le> key z)"
proof (induction xs rule: rev_induct)
  case Nil
  have "x # [] = [] @ x # []" by simp
  then show ?case by fastforce
next
  case (snoc y xs)
  define c where "c = foldl (\<lambda>best y. if key y < key best then y else best) x xs"
  define c' where "c' = foldl (\<lambda>best y. if key y < key best then y else best) x (xs @ [y])"
  have c': "c' = (if key y < key c then y else c)"
    by (simp add: c_def c'_def)
  from snoc obtain ys zs where eq: "x # xs = ys @ c # zs"
    and ys: "\<forall>w\<in>set ys. key c < key w" and zs: "\<forall>w\<in>set zs. key c \<le> key w"
    unfolding c_def by blast
  have mem: "key c \<le> key w" if "w \<in> set (x # xs)" for w
  proof -
    from that have "w \<in> set (ys @ c # zs)" unfolding eq .
    then show ?thesis using ys zs by (auto simp: less_imp_le)
  qed
  have "\<exists>ys zs. x # xs @ [y] = ys @ c' # zs \<and> (\<forall>w\<in>set ys. key c' < key w)
          \<and> (\<forall>w\<in>set zs. key c' \<le> key w)"
  proof (cases "key y < key c")
    case True
    then have "c' = y" by (simp add: c')
    moreover have "\<forall>w\<in>set (x # xs). key y < key w"
      using mem True by (meson less_le_trans)
    moreover have "x # xs @ [y] = (x # xs) @ y # []" by simp
    ultimately show ?thesis by (metis empty_iff empty_set)
  next
    case False
    then have "c' = c" by (simp add: c')
    moreover have "x # xs @ [y] = ys @ c # (zs @ [y])" using eq by simp
    moreover have "\<forall>w\<in>set (zs @ [y]). key c \<le> key w" using zs False by auto
    ultimately show ?thesis using ys by metis
  qed
  then show ?case unfolding c'_def by simp
qed


lemma py_min_key_first:
  assumes "xs \<noteq> []"
  shows "\<exists>c ys zs. py_min_key key xs = Inr c \<and> xs = ys @ c # zs
           \<and> (\<forall>y\<in>set ys. key c < key y) \<and> (\<forall>z\<in>set zs. key c \<le> key z)"
proof -
  from assms obtain x xs' where xs: "xs = x # xs'" by (cases xs) auto
  from foldl_min_key [of x xs' key] show ?thesis unfolding xs by auto
qed

lemma py_remove_mid:
  "c \<notin> set ys \<Longrightarrow> py_remove c (ys @ c # zs) = Inr (ys @ zs)"
  by (simp add: py_remove_def remove1_append)

subsection \<open>One iteration of SCAN and C-SCAN\<close>

lemma next_request_in:
  "serviceable v \<Longrightarrow> next_request v \<in> set (v_requests v)"
proof -
  assume s: "serviceable v"
  show ?thesis
  proof (cases "v_current_direction v = ''right''")
    case True
    with s have "set (filter (\<lambda>r. r \<ge> v_current_head v) (v_requests v)) \<noteq> {}"
      by (simp add: serviceable_def del: set_filter)
    then have "Min (set (filter (\<lambda>r. r \<ge> v_current_head v) (v_requests v)))
                 \<in> set (filter (\<lambda>r. r \<ge> v_current_head v) (v_requests v))"
      by (intro Min_in) simp_all
    with True show ?thesis by (simp add: next_request_def)
  next
    case False
    with s have "set (filter (\<lambda>r. r \<le> v_current_head v) (v_requests v)) \<noteq> {}"
      by (simp add: serviceable_def del: set_filter)
    then have "Max (set (filter (\<lambda>r. r \<le> v_current_head v) (v_requests v)))
                 \<in> set (filter (\<lambda>r. r \<le> v_current_head v) (v_requests v))"
      by (intro Max_in) simp_all
    with False show ?thesis by (simp add: next_request_def)
  qed
qed

lemma py_remove_in: "x \<in> set xs \<Longrightarrow> py_remove x xs = Inr (remove1 x xs)"
  by (simp add: py_remove_def)

lemma scan_step_serve:
  assumes "serviceable v"
  shows "scan_step self v = Inr (serve (next_request v) v)"
proof (cases "v_current_direction v = ''right''")
  case True
  with assms have ne: "filter (\<lambda>r. r \<ge> v_current_head v) (v_requests v) \<noteq> []"
    by (simp add: serviceable_def)
  from True have nr: "Min (set (filter (\<lambda>r. r \<ge> v_current_head v) (v_requests v))) = next_request v"
    by (simp add: next_request_def)
  show ?thesis
    using True ne next_request_in [OF assms]
    by (simp add: scan_step_def py_min_eq nr py_remove_in serve_def Let_def del: set_filter)
next
  case False
  with assms have ne: "filter (\<lambda>r. r \<le> v_current_head v) (v_requests v) \<noteq> []"
    by (simp add: serviceable_def)
  from False have nr: "Max (set (filter (\<lambda>r. r \<le> v_current_head v) (v_requests v))) = next_request v"
    by (simp add: next_request_def)
  show ?thesis
    using False ne next_request_in [OF assms]
    by (simp add: scan_step_def py_max_eq nr py_remove_in serve_def Let_def del: set_filter)
qed

lemma c_scan_step_serve:
  assumes "serviceable v"
  shows "c_scan_step self v = Inr (serve (next_request v) v)"
proof (cases "v_current_direction v = ''right''")
  case True
  with assms have ne: "filter (\<lambda>r. r \<ge> v_current_head v) (v_requests v) \<noteq> []"
    by (simp add: serviceable_def)
  from True have nr: "Min (set (filter (\<lambda>r. r \<ge> v_current_head v) (v_requests v))) = next_request v"
    by (simp add: next_request_def)
  show ?thesis
    using True ne next_request_in [OF assms]
    by (simp add: c_scan_step_def py_min_eq nr py_remove_in serve_def Let_def del: set_filter)
next
  case False
  with assms have ne: "filter (\<lambda>r. r \<le> v_current_head v) (v_requests v) \<noteq> []"
    by (simp add: serviceable_def)
  from False have nr: "Max (set (filter (\<lambda>r. r \<le> v_current_head v) (v_requests v))) = next_request v"
    by (simp add: next_request_def)
  show ?thesis
    using False ne next_request_in [OF assms]
    by (simp add: c_scan_step_def py_max_eq nr py_remove_in serve_def Let_def del: set_filter)
qed

lemma scan_step_turn: "\<not> serviceable v \<Longrightarrow> scan_step self v = Inr (scan_turn self v)"
proof (cases "v_current_direction v = ''right''")
  case True
  assume "\<not> serviceable v"
  with True show ?thesis
    by (simp add: scan_step_def serviceable_def visit_def scan_turn_def Let_def)
next
  case False
  assume "\<not> serviceable v"
  with False show ?thesis
    by (simp add: scan_step_def serviceable_def visit_def scan_turn_def Let_def)
qed

lemma c_scan_step_jump: "\<not> serviceable v \<Longrightarrow> c_scan_step self v = Inr (c_scan_jump self v)"
proof (cases "v_current_direction v = ''right''")
  case True
  assume "\<not> serviceable v"
  with True show ?thesis
    by (simp add: c_scan_step_def serviceable_def visit_def c_scan_jump_def Let_def)
next
  case False
  assume "\<not> serviceable v"
  with False show ?thesis
    by (simp add: c_scan_step_def serviceable_def visit_def c_scan_jump_def Let_def)
qed

subsection \<open>Re-walking\<close>

lemma rewalk_append: "rewalk h (xs @ ys) = rewalk h xs @ rewalk (last (h # xs)) ys"
  by (induction xs arbitrary: h) auto

lemma rewalk_map2: "rewalk h xs = map2 (\<lambda>head request. \<bar>head - request\<bar>) (h # xs) xs"
  by (induction xs arbitrary: h) auto

subsection \<open>The loop of FCFS\<close>

lemma fcfs_loop_fields:
  "v_sequence (fcfs_loop rs v) = v_sequence v @ rs \<and>
   v_movements (fcfs_loop rs v) = v_movements v @ rewalk (v_current_head v) rs \<and>
   v_total_movement (fcfs_loop rs v) = v_total_movement v + sum_list (rewalk (v_current_head v) rs) \<and>
   v_current_head (fcfs_loop rs v) = last (v_current_head v # rs)"
  by (induction rs arbitrary: v) (simp_all add: Let_def)

subsection \<open>The average and the returned dictionary\<close>

lemma finish_Inl:
  "seek_overflow (v_total_movement v) q \<Longrightarrow> finish name dir q v = Inl OverflowError"
  by (simp add: finish_def average_def py_truediv_def seek_overflow_def)

lemma finish_Inr:
  assumes "\<not> seek_overflow (v_total_movement v) q"
  shows "\<exists>a. finish name dir q v =
     Inr \<lparr>algorithm = name, total_movement = v_total_movement v, average_seek = a,
          sequence = v_sequence v, movements = v_movements v,
          final_position = v_current_head v, direction = dir\<rparr>"
  using assms by (cases "q = []") (simp_all add: finish_def average_def py_truediv_def seek_overflow_def)

lemma finish_outcome:
  "finish name dir q v = Inl OverflowError \<and> seek_overflow (v_total_movement v) q \<or>
   (\<exists>r. finish name dir q v = Inr r \<and> \<not> seek_overflow (v_total_movement v) q \<and>
        total_movement r = v_total_movement v \<and> sequence r = v_sequence v \<and>
        movements r = v_movements v \<and> final_position r = v_current_head v)"
proof (cases "seek_overflow (v_total_movement v) q")
  case True
  then show ?thesis by (simp add: finish_Inl)
next
  case False
  from finish_Inr [OF this, of name dir] False show ?thesis by auto
qed

lemma small_no_overflow: "\<bar>x\<bar> \<le> 3 * 2 ^ 1022 \<Longrightarrow> \<not> double_overflow x"
  by (simp add: double_overflow_def)

lemma no_seek_overflow:
  assumes "0 \<le> t" "t \<le> (tc - 1) * (int (length q) + 2)" "tc \<le> 2 ^ 1022"
  shows "\<not> seek_overflow t q"
proof (cases "q = []")
  case True
  then show ?thesis by (simp add: seek_overflow_def)
next
  case False
  define n where "n = int (length q)"
  have n: "1 \<le> n" using False by (cases q) (simp_all add: n_def)
  have tc: "0 \<le> tc - 1"
  proof (rule ccontr)
    assume "\<not> 0 \<le> tc - 1"
    then have "(tc - 1) * (n + 2) < 0" using n by (simp add: mult_neg_pos)
    with assms(1,2) show False by (simp add: n_def)
  qed
  have "(tc - 1) * (n + 2) \<le> (tc - 1) * (3 * n)"
    using tc n by (intro mult_left_mono) simp_all
  also have "\<dots> \<le> 2 ^ 1022 * (3 * n)"
    using assms(3) n by (intro mult_right_mono) simp_all
  finally have "t \<le> (3 * 2 ^ 1022) * n" using assms(2) by (simp add: n_def)
  then have "real_of_int t \<le> real_of_int ((3 * 2 ^ 1022) * n)" by (simp only: of_int_le_iff)
  then have "real_of_int t \<le> (3 * 2 ^ 1022) * real_of_int n" by simp
  then have "real_of_int t / real_of_int n \<le> 3 * 2 ^ 1022"
    using n by (simp add: pos_divide_le_eq)
  moreover have "0 \<le> real_of_int t / real_of_int n" using assms(1) n by simp
  ultimately have "\<bar>real_of_int t / real_of_int n\<bar> \<le> 3 * 2 ^ 1022" by simp
  then have "\<not> double_overflow (real_of_int t / real_of_int n)" by (rule small_no_overflow)
  then show ?thesis by (simp add: seek_overflow_def n_def)
qed

lemma rewalk_bound:
  assumes "0 \<le> h" "h < tc" "\<forall>x\<in>set xs. 0 \<le> x \<and> x < tc"
  shows "0 \<le> sum_list (rewalk h xs) \<and> sum_list (rewalk h xs) \<le> (tc - 1) * int (length xs)"
  using assms
proof (induction xs arbitrary: h)
  case Nil
  show ?case by simp
next
  case (Cons x xs)
  from Cons.prems have x: "0 \<le> x" "x < tc" and rest: "\<forall>y\<in>set xs. 0 \<le> y \<and> y < tc"
    by simp_all
  from Cons.IH [OF x rest] have ih: "0 \<le> sum_list (rewalk x xs)"
    "sum_list (rewalk x xs) \<le> (tc - 1) * int (length xs)" by simp_all
  have "\<bar>h - x\<bar> \<le> tc - 1" using Cons.prems(1,2) x by linarith
  with ih show ?case by (simp add: algebra_simps)
qed

lemma valid_no_overflow:
  assumes "valid self" "total_cylinders self \<le> 2 ^ 1022"
    and "set xs \<subseteq> set (request_queue self) \<union> {0, total_cylinders self - 1}"
    and "int (length xs) \<le> int (length (request_queue self)) + 2"
  shows "\<not> seek_overflow (sum_list (rewalk (current_head self) xs)) (request_queue self)"
proof -
  have r: "\<forall>x\<in>set xs. 0 \<le> x \<and> x < total_cylinders self"
    using assms(1,3) by (auto simp: valid_def list_all_iff)
  have "0 \<le> current_head self" "current_head self < total_cylinders self"
    using assms(1) by (simp_all add: valid_def)
  from rewalk_bound [OF this r]
  have b: "0 \<le> sum_list (rewalk (current_head self) xs)"
    "sum_list (rewalk (current_head self) xs) \<le> (total_cylinders self - 1) * int (length xs)"
    by simp_all
  have "0 \<le> total_cylinders self - 1" using assms(1) by (simp add: valid_def)
  then have "(total_cylinders self - 1) * int (length xs)
      \<le> (total_cylinders self - 1) * (int (length (request_queue self)) + 2)"
    using assms(4) by (intro mult_left_mono)
  with b show ?thesis using assms(2) by (intro no_seek_overflow) simp_all
qed

subsection \<open>FCFS\<close>

lemma fcfs_schedule_run:
  "fcfs_schedule self =
     finish ''FCFS'' None (request_queue self) (fcfs_loop (request_queue self) (initial self))"
  by (simp add: fcfs_schedule_def Let_def initial_def)

lemma fcfs_final:
  "v_sequence (fcfs_loop (request_queue self) (initial self)) = request_queue self"
  "v_movements (fcfs_loop (request_queue self) (initial self))
     = rewalk (current_head self) (request_queue self)"
  "v_total_movement (fcfs_loop (request_queue self) (initial self))
     = sum_list (rewalk (current_head self) (request_queue self))"
  "v_current_head (fcfs_loop (request_queue self) (initial self))
     = last (current_head self # request_queue self)"
  by (simp_all add: fcfs_loop_fields initial_def del: last.simps)

text \<open>
  C6: FCFS ends on every input.  It returns a result unless the average of its
  total over the requests is beyond the doubles, in which case the division raises
  and nothing is returned; on valid inputs with at most \<open>2 ^ 1022\<close> cylinders the
  average is never beyond the doubles.  The sequence of the result is the request
  list in its original order; the movement recorded at a step is the distance
  between the head before the step and the request, and the head before a step is
  the request serviced just before (the start head at the first step).
\<close>

theorem fcfs_sequence_is_requests:
  "(if seek_overflow (sum_list (rewalk (current_head self) (request_queue self)))
        (request_queue self)
    then fcfs_schedule self = Inl OverflowError
    else \<exists>r. fcfs_schedule self = Inr r
        \<and> sequence r = request_queue self
        \<and> movements r = map2 (\<lambda>head request. \<bar>head - request\<bar>)
                           (current_head self # request_queue self) (request_queue self)
        \<and> total_movement r = sum_list (movements r)
        \<and> final_position r = last (current_head self # request_queue self)) \<and>
   (valid self \<and> total_cylinders self \<le> 2 ^ 1022 \<longrightarrow>
      \<not> seek_overflow (sum_list (rewalk (current_head self) (request_queue self)))
          (request_queue self))"
proof -
  define v where "v = fcfs_loop (request_queue self) (initial self)"
  have t: "v_total_movement v = sum_list (rewalk (current_head self) (request_queue self))"
    by (simp add: v_def fcfs_final)
  have run: "fcfs_schedule self = finish ''FCFS'' None (request_queue self) v"
    by (simp add: v_def fcfs_schedule_run)
  have 1: "fcfs_schedule self = Inl OverflowError"
    if "seek_overflow (sum_list (rewalk (current_head self) (request_queue self)))
          (request_queue self)"
    using that by (simp add: run finish_Inl t)
  have 2: "\<exists>r. fcfs_schedule self = Inr r
        \<and> sequence r = request_queue self
        \<and> movements r = map2 (\<lambda>head request. \<bar>head - request\<bar>)
                           (current_head self # request_queue self) (request_queue self)
        \<and> total_movement r = sum_list (movements r)
        \<and> final_position r = last (current_head self # request_queue self)"
    if "\<not> seek_overflow (sum_list (rewalk (current_head self) (request_queue self)))
          (request_queue self)"
  proof -
    from that have "\<not> seek_overflow (v_total_movement v) (request_queue self)"
      by (simp add: t)
    from finish_Inr [OF this, of "''FCFS''" None] obtain a where
      "fcfs_schedule self =
         Inr \<lparr>algorithm = ''FCFS'', total_movement = v_total_movement v, average_seek = a,
              sequence = v_sequence v, movements = v_movements v,
              final_position = v_current_head v, direction = None\<rparr>"
      unfolding run by blast
    then show ?thesis
      by (simp add: v_def fcfs_final rewalk_map2 del: last.simps)
  qed
  have 3: "\<not> seek_overflow (sum_list (rewalk (current_head self) (request_queue self)))
          (request_queue self)"
    if "valid self" "total_cylinders self \<le> 2 ^ 1022"
    using that by (intro valid_no_overflow) auto
  from 1 2 3 show ?thesis by simp
qed

theorem fcfs_sequence_is_requests_witness:
  "valid (Disk_init 200 50 [82, 170, 43]) \<and>
   total_cylinders (Disk_init 200 50 [82, 170, 43]) \<le> 2 ^ 1022 \<and>
   (\<exists>r. fcfs_schedule (Disk_init 200 50 [82, 170, 43]) = Inr r
        \<and> sequence r = [82, 170, 43] \<and> movements r = [32, 88, 127]
        \<and> total_movement r = sum_list (movements r) \<and> final_position r = 43) \<and>
   valid (Disk_init (2 * 10 ^ 309) 0 [10 ^ 309]) \<and>
   seek_overflow (sum_list (rewalk 0 [10 ^ 309])) [10 ^ 309] \<and>
   fcfs_schedule (Disk_init (2 * 10 ^ 309) 0 [10 ^ 309]) = Inl OverflowError"
proof -
  have v: "valid (Disk_init 200 50 [82, 170, 43])"
    "total_cylinders (Disk_init 200 50 [82, 170, 43]) \<le> 2 ^ 1022"
    by (simp_all add: valid_def Disk_init_def)
  have w: "valid (Disk_init (2 * 10 ^ 309) 0 [10 ^ 309])"
    by (simp add: valid_def Disk_init_def)
  have o: "seek_overflow (sum_list (rewalk 0 [10 ^ 309])) [10 ^ 309]"
    by (simp add: seek_overflow_def double_overflow_def)
  have n: "\<not> seek_overflow (sum_list (rewalk 50 [82, 170, 43])) [82, 170, 43]"
    by (simp add: seek_overflow_def double_overflow_def)
  from v w o n fcfs_sequence_is_requests [of "Disk_init 200 50 [82, 170, 43]"]
    fcfs_sequence_is_requests [of "Disk_init (2 * 10 ^ 309) 0 [10 ^ 309]"]
  show ?thesis by (auto simp add: Disk_init_def)
qed

subsection \<open>SSTF\<close>

text \<open>
  C5: in every state of the SSTF loop with a non-empty working copy, the request
  chosen next has the least distance to the current head among the remaining
  requests, it is the first such request in the order of the remaining queue (every
  request before it is strictly farther), and the step deletes exactly this one
  occurrence: the new working copy is the old one without it.  The loop continues
  from the state so updated.
\<close>

theorem sstf_step_closest_first:
  assumes "v_requests v \<noteq> []"
  shows "\<exists>c ys zs. v_requests v = ys @ c # zs
     \<and> (\<forall>y\<in>set ys. \<bar>c - v_current_head v\<bar> < \<bar>y - v_current_head v\<bar>)
     \<and> (\<forall>z\<in>set zs. \<bar>c - v_current_head v\<bar> \<le> \<bar>z - v_current_head v\<bar>)
     \<and> sstf_step v =
         Inr (v\<lparr>v_total_movement := v_total_movement v + \<bar>v_current_head v - c\<bar>,
                v_sequence := v_sequence v @ [c],
                v_movements := v_movements v @ [\<bar>v_current_head v - c\<bar>],
                v_current_head := c,
                v_requests := ys @ zs\<rparr>)
     \<and> sstf_loop v =
         sstf_loop (v\<lparr>v_total_movement := v_total_movement v + \<bar>v_current_head v - c\<bar>,
                      v_sequence := v_sequence v @ [c],
                      v_movements := v_movements v @ [\<bar>v_current_head v - c\<bar>],
                      v_current_head := c,
                      v_requests := ys @ zs\<rparr>)"
proof -
  from py_min_key_first [OF assms, of "\<lambda>x. \<bar>x - v_current_head v\<bar>"]
  obtain c ys zs where
    c: "py_min_key (\<lambda>x. \<bar>x - v_current_head v\<bar>) (v_requests v) = Inr c"
    and eq: "v_requests v = ys @ c # zs"
    and ys: "\<forall>y\<in>set ys. \<bar>c - v_current_head v\<bar> < \<bar>y - v_current_head v\<bar>"
    and zs: "\<forall>z\<in>set zs. \<bar>c - v_current_head v\<bar> \<le> \<bar>z - v_current_head v\<bar>"
    by blast
  from ys have "c \<notin> set ys" by auto
  then have rm: "py_remove c (v_requests v) = Inr (ys @ zs)"
    unfolding eq by (rule py_remove_mid)
  have step: "sstf_step v =
         Inr (v\<lparr>v_total_movement := v_total_movement v + \<bar>v_current_head v - c\<bar>,
                v_sequence := v_sequence v @ [c],
                v_movements := v_movements v @ [\<bar>v_current_head v - c\<bar>],
                v_current_head := c,
                v_requests := ys @ zs\<rparr>)"
    by (simp add: sstf_step_def c rm Let_def)
  have "sstf_loop v =
         sstf_loop (v\<lparr>v_total_movement := v_total_movement v + \<bar>v_current_head v - c\<bar>,
                      v_sequence := v_sequence v @ [c],
                      v_movements := v_movements v @ [\<bar>v_current_head v - c\<bar>],
                      v_current_head := c,
                      v_requests := ys @ zs\<rparr>)"
    by (subst sstf_loop.simps) (simp add: assms step)
  with eq ys zs step show ?thesis by blast
qed

theorem sstf_step_closest_first_witness:
  "[51, 49, 52] \<noteq> ([] :: int list) \<and>
   (\<exists>c ys zs. [51, 49, 52] = ys @ c # zs
     \<and> (\<forall>y\<in>set ys. \<bar>c - 50\<bar> < \<bar>y - 50\<bar>)
     \<and> (\<forall>z\<in>set zs. \<bar>c - 50\<bar> \<le> \<bar>z - 50\<bar>)
     \<and> sstf_step \<lparr>v_current_head = 50, v_requests = [51, 49, 52], v_total_movement = 0,
                    v_sequence = [], v_movements = []\<rparr> =
         Inr \<lparr>v_current_head = c, v_requests = ys @ zs, v_total_movement = \<bar>50 - c\<bar>,
              v_sequence = [c], v_movements = [\<bar>50 - c\<bar>]\<rparr>
     \<and> sstf_loop \<lparr>v_current_head = 50, v_requests = [51, 49, 52], v_total_movement = 0,
                    v_sequence = [], v_movements = []\<rparr> =
         sstf_loop \<lparr>v_current_head = c, v_requests = ys @ zs, v_total_movement = \<bar>50 - c\<bar>,
              v_sequence = [c], v_movements = [\<bar>50 - c\<bar>]\<rparr>)"
  using sstf_step_closest_first [of "\<lparr>v_current_head = 50, v_requests = [51, 49, 52],
    v_total_movement = 0, v_sequence = [], v_movements = []\<rparr>"]
  by simp

subsection \<open>Invariants of the loops\<close>

lemma serve_fields [simp]:
  "v_requests (serve x v) = remove1 x (v_requests v)"
  "v_sequence (serve x v) = v_sequence v @ [x]"
  "v_movements (serve x v) = v_movements v @ [\<bar>v_current_head v - x\<bar>]"
  "v_total_movement (serve x v) = v_total_movement v + \<bar>v_current_head v - x\<bar>"
  "v_current_head (serve x v) = x"
  by (simp_all add: serve_def)

lemma serve_direction [simp]: "v_current_direction (serve x v) = v_current_direction v"
  by (simp add: serve_def)

lemma visit_fields [simp]:
  "v_requests (visit b v) = v_requests v"
  "v_sequence (visit b v) = v_sequence v @ [b]"
  "v_movements (visit b v) = v_movements v @ [\<bar>v_current_head v - b\<bar>]"
  "v_total_movement (visit b v) = v_total_movement v + \<bar>v_current_head v - b\<bar>"
  "v_current_head (visit b v) = b"
  by (simp_all add: visit_def)

lemma visit_direction [simp]: "v_current_direction (visit b v) = v_current_direction v"
  by (simp add: visit_def)

lemma accounted_serve: "accounted h0 v \<Longrightarrow> accounted h0 (serve x v)"
  by (simp add: accounted_def rewalk_append)

lemma in_range_serve: "in_range tc v \<Longrightarrow> in_range tc (serve x v)"
  by (auto simp: in_range_def list_all_iff dest: notin_set_remove1)

lemma serviceable_if_settled: "settled v \<Longrightarrow> v_requests v \<noteq> [] \<Longrightarrow> serviceable v"
  by (cases "v_requests v") (auto simp: settled_def serviceable_def split: if_splits)

lemma settled_serve:
  assumes "settled v" "serviceable v"
  shows "settled (serve (next_request v) v)"
proof (cases "v_current_direction v = ''right''")
  case True
  let ?R = "filter (\<lambda>r. r \<ge> v_current_head v) (v_requests v)"
  from assms True have all: "?R = v_requests v"
    by (simp add: settled_def list_all_iff)
  have "Min (set (v_requests v)) \<le> r" if "r \<in> set (v_requests v)" for r
    using that by simp
  moreover have "set (remove1 (Min (set (v_requests v))) (v_requests v)) \<subseteq> set (v_requests v)"
    by (rule set_remove1_subset)
  ultimately have "list_all (\<lambda>r. r \<ge> Min (set (v_requests v))) (remove1 (Min (set (v_requests v))) (v_requests v))"
    unfolding list_all_iff by blast
  with True all show ?thesis by (simp add: settled_def next_request_def)
next
  case False
  let ?L = "filter (\<lambda>r. r \<le> v_current_head v) (v_requests v)"
  from assms False have all: "?L = v_requests v"
    by (simp add: settled_def list_all_iff)
  have "r \<le> Max (set (v_requests v))" if "r \<in> set (v_requests v)" for r
    using that by simp
  moreover have "set (remove1 (Max (set (v_requests v))) (v_requests v)) \<subseteq> set (v_requests v)"
    by (rule set_remove1_subset)
  ultimately have "list_all (\<lambda>r. r \<le> Max (set (v_requests v))) (remove1 (Max (set (v_requests v))) (v_requests v))"
    unfolding list_all_iff by blast
  with False all show ?thesis by (simp add: settled_def next_request_def)
qed

lemma rank_serve:
  assumes "serviceable v"
  shows "rank (serve (next_request v) v) < rank v"
proof -
  have mem: "next_request v \<in> set (v_requests v)"
    using assms by (rule next_request_in)
  then have pos: "0 < length (v_requests v)"
    by (rule length_pos_if_in_set)
  have "length (v_requests (serve (next_request v) v)) = length (v_requests v) - 1"
    using mem by (simp add: length_remove1)
  then have "rank (serve (next_request v) v) \<le> 2 * (length (v_requests v) - 1) + 1"
    by (simp add: rank_def)
  moreover have "rank v = 2 * length (v_requests v)"
    using assms by (simp add: rank_def)
  ultimately show ?thesis
    using pos by linarith
qed


lemma scan_turn_fields [simp]:
  "v_requests (scan_turn self v) = v_requests v"
  "v_sequence (scan_turn self v) = v_sequence v @ [boundary self (v_current_direction v)]"
  "v_current_head (scan_turn self v) = boundary self (v_current_direction v)"
  "v_current_direction (scan_turn self v) = (if v_current_direction v = ''right'' then ''left'' else ''right'')"
  by (simp_all add: scan_turn_def boundary_def)

lemma c_scan_jump_fields [simp]:
  "v_requests (c_scan_jump self v) = v_requests v"
  "v_sequence (c_scan_jump self v) = v_sequence v @ [boundary self (v_current_direction v)]"
  "v_current_head (c_scan_jump self v) = (if v_current_direction v = ''right'' then 0 else total_cylinders self - 1)"
  "v_current_direction (c_scan_jump self v) = v_current_direction v"
  by (simp_all add: c_scan_jump_def boundary_def)

lemma pool_serve: "x \<in> set (v_requests v) \<Longrightarrow> pool (serve x v) = pool v"
  by (simp add: pool_def)

lemma pool_scan_turn:
  "pool (scan_turn self v) = pool v + {#boundary self (v_current_direction v)#}"
  by (simp add: pool_def)

lemma pool_c_scan_jump:
  "pool (c_scan_jump self v) = pool v + {#boundary self (v_current_direction v)#}"
  by (simp add: pool_def)

lemma conserved_serve:
  assumes "conserved rs b d0 v" "serviceable v"
  shows "conserved rs b d0 (serve (next_request v) v)"
proof -
  have p: "pool (serve (next_request v) v) = pool v"
    using assms(2) by (intro pool_serve next_request_in)
  from assms(1) consider
      "pool v = mset rs" "v_current_direction v = ''right'' \<longleftrightarrow> d0 = ''right''"
    | "pool v = mset rs + {#b#}" "settled v"
    unfolding conserved_def by blast
  then show ?thesis
  proof cases
    case 1
    then show ?thesis unfolding conserved_def p by simp
  next
    case 2
    with settled_serve [OF _ assms(2)] show ?thesis unfolding conserved_def p by simp
  qed
qed

lemma settled_scan_turn:
  "in_range (total_cylinders self) v \<Longrightarrow> settled (scan_turn self v)"
  by (auto simp: settled_def in_range_def list_all_iff boundary_def)

lemma settled_c_scan_jump:
  "in_range (total_cylinders self) v \<Longrightarrow> settled (c_scan_jump self v)"
  by (auto simp: settled_def in_range_def list_all_iff)

lemma in_range_scan_turn: "in_range tc v \<Longrightarrow> in_range tc (scan_turn self v)"
  by (simp add: in_range_def)

lemma in_range_c_scan_jump: "in_range tc v \<Longrightarrow> in_range tc (c_scan_jump self v)"
  by (simp add: in_range_def)

lemma rank_settled:
  assumes "settled v'" "v_requests v' = v_requests v" "v_requests v \<noteq> []" "\<not> serviceable v"
  shows "rank v' < rank v"
proof -
  have "serviceable v'" using assms(1-3) by (simp add: serviceable_if_settled)
  then show ?thesis using assms(2,4) by (simp add: rank_def)
qed

lemma conserved_scan_turn:
  assumes "conserved rs (boundary self d0) d0 v" "in_range (total_cylinders self) v"
    "v_requests v \<noteq> []" "\<not> serviceable v"
  shows "conserved rs (boundary self d0) d0 (scan_turn self v)"
proof -
  from assms(3,4) have "\<not> settled v" using serviceable_if_settled by blast
  with assms(1) have eq: "pool v = mset rs"
    and dir: "v_current_direction v = ''right'' \<longleftrightarrow> d0 = ''right''"
    unfolding conserved_def by auto
  from dir have "boundary self (v_current_direction v) = boundary self d0"
    by (simp add: boundary_def)
  with eq have "pool (scan_turn self v) = mset rs + {#boundary self d0#}"
    by (simp add: pool_scan_turn)
  with settled_scan_turn [OF assms(2)] show ?thesis
    unfolding conserved_def by blast
qed

lemma conserved_c_scan_jump:
  assumes "conserved rs (boundary self d0) d0 v" "in_range (total_cylinders self) v"
    "v_requests v \<noteq> []" "\<not> serviceable v"
  shows "conserved rs (boundary self d0) d0 (c_scan_jump self v)"
proof -
  from assms(3,4) have "\<not> settled v" using serviceable_if_settled by blast
  with assms(1) have eq: "pool v = mset rs"
    and dir: "v_current_direction v = ''right'' \<longleftrightarrow> d0 = ''right''"
    unfolding conserved_def by auto
  from dir have "boundary self (v_current_direction v) = boundary self d0"
    by (simp add: boundary_def)
  with eq have "pool (c_scan_jump self v) = mset rs + {#boundary self d0#}"
    by (simp add: pool_c_scan_jump)
  with settled_c_scan_jump [OF assms(2)] show ?thesis
    unfolding conserved_def by blast
qed


lemma accounted_scan_turn: "accounted h0 v \<Longrightarrow> accounted h0 (scan_turn self v)"
  by (simp add: accounted_def scan_turn_def rewalk_append)

lemma scan_loop_total:
  fixes m :: "dlocals \<Rightarrow> nat"
  assumes "I v"
    and step: "\<And>v. I v \<Longrightarrow> v_requests v \<noteq> [] \<Longrightarrow>
                 \<exists>v'. scan_step self v = Inr v' \<and> I v' \<and> m v' < m v"
  shows "\<exists>v'. scan_loop self v = Some (Inr v') \<and> I v' \<and> v_requests v' = []"
  using assms(1)
proof (induction "m v" arbitrary: v rule: less_induct)
  case less
  show ?case
  proof (cases "v_requests v = []")
    case True
    with less.prems show ?thesis by (subst scan_loop.simps) simp
  next
    case False
    from step [OF less.prems False] obtain v1
      where s: "scan_step self v = Inr v1" and i: "I v1" and m: "m v1 < m v" by blast
    from less.hyps [OF m i] obtain v' where
      "scan_loop self v1 = Some (Inr v')" "I v'" "v_requests v' = []" by blast
    with False s show ?thesis by (subst scan_loop.simps) simp
  qed
qed

lemma c_scan_loop_total:
  fixes m :: "dlocals \<Rightarrow> nat"
  assumes "I v"
    and step: "\<And>v. I v \<Longrightarrow> v_requests v \<noteq> [] \<Longrightarrow>
                 \<exists>v'. c_scan_step self v = Inr v' \<and> I v' \<and> m v' < m v"
  shows "\<exists>v'. c_scan_loop self v = Some (Inr v') \<and> I v' \<and> v_requests v' = []"
  using assms(1)
proof (induction "m v" arbitrary: v rule: less_induct)
  case less
  show ?case
  proof (cases "v_requests v = []")
    case True
    with less.prems show ?thesis by (subst c_scan_loop.simps) simp
  next
    case False
    from step [OF less.prems False] obtain v1
      where s: "c_scan_step self v = Inr v1" and i: "I v1" and m: "m v1 < m v" by blast
    from less.hyps [OF m i] obtain v' where
      "c_scan_loop self v1 = Some (Inr v')" "I v'" "v_requests v' = []" by blast
    with False s show ?thesis by (subst c_scan_loop.simps) simp
  qed
qed

lemma scan_run:
  assumes "in_range (total_cylinders self) v" "conserved rs (boundary self d0) d0 v"
    "accounted h0 v"
  shows "\<exists>v'. scan_loop self v = Some (Inr v') \<and> v_requests v' = []
           \<and> conserved rs (boundary self d0) d0 v' \<and> accounted h0 v'"
proof -
  let ?I = "\<lambda>v. in_range (total_cylinders self) v \<and> conserved rs (boundary self d0) d0 v
                \<and> accounted h0 v"
  have "\<exists>v'. scan_step self v = Inr v' \<and> ?I v' \<and> rank v' < rank v"
    if i: "?I v" and ne: "v_requests v \<noteq> []" for v
  proof (cases "serviceable v")
    case True
    with i show ?thesis
      by (simp add: scan_step_serve in_range_serve conserved_serve accounted_serve rank_serve)
  next
    case False
    with i ne have "rank (scan_turn self v) < rank v"
      by (intro rank_settled settled_scan_turn) simp_all
    with False i ne show ?thesis
      by (simp add: scan_step_turn in_range_scan_turn conserved_scan_turn accounted_scan_turn)
  qed
  from scan_loop_total [where I = ?I and m = rank, OF _ this] assms
  show ?thesis by blast
qed

lemma sstf_step_serve:
  assumes "v_requests v \<noteq> []"
  shows "\<exists>c\<in>set (v_requests v). sstf_step v = Inr (serve c v)"
proof -
  from py_min_key_first [OF assms, of "\<lambda>x. \<bar>x - v_current_head v\<bar>"]
  obtain c where c: "py_min_key (\<lambda>x. \<bar>x - v_current_head v\<bar>) (v_requests v) = Inr c"
    and "c \<in> set (v_requests v)"
    by auto
  then show ?thesis
    by (auto simp: sstf_step_def py_remove_in serve_def Let_def)
qed

lemma sstf_run:
  "\<exists>v'. sstf_loop v = Inr v' \<and> v_requests v' = [] \<and> pool v' = pool v
        \<and> (accounted h0 v \<longrightarrow> accounted h0 v')"
proof (induction v rule: sstf_loop.induct)
  case (1 v)
  show ?case
  proof (cases "v_requests v = []")
    case True
    then show ?thesis by (subst sstf_loop.simps) simp
  next
    case False
    from sstf_step_serve [OF False] obtain c
      where c: "c \<in> set (v_requests v)" and s: "sstf_step v = Inr (serve c v)" by blast
    from "1.IH" [OF False s] obtain v' where
      "sstf_loop (serve c v) = Inr v'" "v_requests v' = []" "pool v' = pool (serve c v)"
      "accounted h0 (serve c v) \<longrightarrow> accounted h0 v'" by blast
    with False s c show ?thesis
      by (subst sstf_loop.simps) (simp add: pool_serve accounted_serve)
  qed
qed

lemma initial_facts:
  "pool (initial self) = mset (request_queue self)"
  "accounted (current_head self) (initial self)"
  "pool (initial_d self d) = mset (request_queue self)"
  "accounted (current_head self) (initial_d self d)"
  "conserved (request_queue self) b d (initial_d self d)"
  "valid self \<Longrightarrow> in_range (total_cylinders self) (initial_d self d)"
  by (simp_all add: initial_def initial_d_def pool_def accounted_def conserved_def
      valid_def in_range_def)

lemma conserved_final:
  assumes "conserved rs b d0 v" "v_requests v = []"
  shows "mset (v_sequence v) = mset rs \<or> mset (v_sequence v) = mset rs + {#b#}"
  using assms by (auto simp: conserved_def pool_def)

lemma final_shape:
  assumes "mset xs = mset rs \<or> mset xs = mset rs + {#b#}"
  shows "set xs \<subseteq> set rs \<union> {b}" "length rs \<le> length xs" "length xs \<le> length rs + 1"
proof -
  have 1: "set xs = set rs \<and> length xs = length rs" if "mset xs = mset rs"
    using that mset_eq_setD [of xs rs] mset_eq_length [of xs rs] by blast
  have 2: "set xs = set (b # rs) \<and> length xs = length (b # rs)"
    if "mset xs = mset rs + {#b#}"
  proof -
    from that have "mset xs = mset (b # rs)" by simp
    then show ?thesis
      using mset_eq_setD [of xs "b # rs"] mset_eq_length [of xs "b # rs"] by blast
  qed
  from assms 1 2 show "set xs \<subseteq> set rs \<union> {b}" by auto
  from assms 1 2 show "length rs \<le> length xs" by auto
  from assms 1 2 show "length xs \<le> length rs + 1" by auto
qed

lemma boundary_cases: "boundary self d = 0 \<or> boundary self d = total_cylinders self - 1"
  by (simp add: boundary_def)

subsection \<open>The runs of SSTF and SCAN\<close>

lemma sstf_schedule_run:
  "\<exists>v :: locals. sstf_schedule self = finish ''SSTF'' None (request_queue self) v \<and>
       mset (v_sequence v) = mset (request_queue self) \<and>
       accounted (current_head self) v"
proof -
  from sstf_run [of "initial self" "current_head self"] obtain v' where
    run: "sstf_loop (initial self) = Inr v'" and e: "v_requests v' = []"
    and p: "pool v' = mset (request_queue self)" and a: "accounted (current_head self) v'"
    by (auto simp: initial_facts)
  from run have "sstf_schedule self = finish ''SSTF'' None (request_queue self) v'"
    by (simp add: sstf_schedule_def flip: initial_def)
  moreover have "mset (v_sequence v') = mset (request_queue self)"
    using p e by (simp add: pool_def)
  ultimately show ?thesis using a by blast
qed

lemma scan_schedule_run:
  assumes "valid self"
  shows "\<exists>v. scan_schedule self d = Some (finish ''SCAN'' (Some d) (request_queue self) v) \<and>
       scan_loop self (initial_d self d) = Some (Inr v) \<and>
       (mset (v_sequence v) = mset (request_queue self) \<or>
        mset (v_sequence v) = mset (request_queue self) + {#boundary self d#}) \<and>
       accounted (current_head self) v"
proof -
  from scan_run [of self "initial_d self d" "request_queue self" d "current_head self"] assms
  obtain v' where
    run: "scan_loop self (initial_d self d) = Some (Inr v')" and e: "v_requests v' = []"
    and p: "conserved (request_queue self) (boundary self d) d v'"
    and a: "accounted (current_head self) v'"
    by (auto simp: initial_facts)
  from run have "scan_schedule self d = Some (finish ''SCAN'' (Some d) (request_queue self) v')"
    by (simp add: scan_schedule_def flip: initial_d_def)
  with run conserved_final [OF p e] a show ?thesis by blast
qed

lemma accounted_result:
  assumes "accounted h v" "total_movement r = v_total_movement v" "sequence r = v_sequence v"
    "movements r = v_movements v" "final_position r = v_current_head v"
  shows "movements r = rewalk h (sequence r)" "total_movement r = sum_list (movements r)"
    "final_position r = last (h # sequence r)"
  using assms by (simp_all add: accounted_def del: last.simps)

lemma accounted_no_overflow:
  assumes "valid self" "total_cylinders self \<le> 2 ^ 1022" "accounted (current_head self) v"
    and "mset (v_sequence v) = mset (request_queue self) \<or>
         mset (v_sequence v) = mset (request_queue self) + {#boundary self d#}"
  shows "\<not> seek_overflow (v_total_movement v) (request_queue self)"
proof -
  have t: "v_total_movement v = sum_list (rewalk (current_head self) (v_sequence v))"
    using assms(3) by (simp add: accounted_def)
  from final_shape [OF assms(4)] boundary_cases [of self d]
  have "set (v_sequence v) \<subseteq> set (request_queue self) \<union> {0, total_cylinders self - 1}"
    and "int (length (v_sequence v)) \<le> int (length (request_queue self)) + 2"
    by auto
  with assms(1,2) show ?thesis unfolding t by (intro valid_no_overflow)
qed

lemma fcfs_outcome:
  "(\<exists>r. fcfs_schedule self = Inr r \<and> sequence r = request_queue self \<and>
        movements r = rewalk (current_head self) (sequence r) \<and>
        total_movement r = sum_list (movements r) \<and>
        final_position r = last (current_head self # sequence r)) \<or>
   fcfs_schedule self = Inl OverflowError"
  using finish_outcome [of "''FCFS''" None "request_queue self"
      "fcfs_loop (request_queue self) (initial self)"]
  by (auto simp: fcfs_schedule_run fcfs_final simp del: last.simps)

lemma fcfs_no_overflow:
  assumes "valid self" "total_cylinders self \<le> 2 ^ 1022"
  shows "fcfs_schedule self \<noteq> Inl OverflowError"
proof -
  have "\<not> seek_overflow (sum_list (rewalk (current_head self) (request_queue self)))
          (request_queue self)"
    using assms by (intro valid_no_overflow) auto
  from finish_Inr [of "fcfs_loop (request_queue self) (initial self)" "request_queue self"
      "''FCFS''" None] this
  show ?thesis by (auto simp: fcfs_schedule_run fcfs_final)
qed

lemma sstf_outcome:
  "(\<exists>r. sstf_schedule self = Inr r \<and> mset (sequence r) = mset (request_queue self) \<and>
        movements r = rewalk (current_head self) (sequence r) \<and>
        total_movement r = sum_list (movements r) \<and>
        final_position r = last (current_head self # sequence r)) \<or>
   sstf_schedule self = Inl OverflowError"
proof -
  from sstf_schedule_run [of self] obtain v :: locals where
    run: "sstf_schedule self = finish ''SSTF'' None (request_queue self) v"
    and m: "mset (v_sequence v) = mset (request_queue self)"
    and a: "accounted (current_head self) v" by blast
  from finish_outcome [of "''SSTF''" None "request_queue self" v]
  show ?thesis
  proof
    assume "finish ''SSTF'' None (request_queue self) v = Inl OverflowError \<and>
      seek_overflow (v_total_movement v) (request_queue self)"
    then show ?thesis by (simp add: run)
  next
    assume "\<exists>r. finish ''SSTF'' None (request_queue self) v = Inr r \<and>
        \<not> seek_overflow (v_total_movement v) (request_queue self) \<and>
        total_movement r = v_total_movement v \<and> sequence r = v_sequence v \<and>
        movements r = v_movements v \<and> final_position r = v_current_head v"
    then obtain r where r: "finish ''SSTF'' None (request_queue self) v = Inr r"
      "total_movement r = v_total_movement v" "sequence r = v_sequence v"
      "movements r = v_movements v" "final_position r = v_current_head v" by blast
    from accounted_result [OF a r(2-5)] r(1,3) m run show ?thesis by auto
  qed
qed

lemma sstf_no_overflow:
  assumes "valid self" "total_cylinders self \<le> 2 ^ 1022"
  shows "sstf_schedule self \<noteq> Inl OverflowError"
proof -
  from sstf_schedule_run [of self] obtain v :: locals where
    run: "sstf_schedule self = finish ''SSTF'' None (request_queue self) v"
    and m: "mset (v_sequence v) = mset (request_queue self)"
    and a: "accounted (current_head self) v" by blast
  have "\<not> seek_overflow (v_total_movement v) (request_queue self)"
    using assms a m by (intro accounted_no_overflow [where d = "''right''"]) simp_all
  from finish_Inr [OF this, of "''SSTF''" None] show ?thesis by (auto simp: run)
qed

lemma scan_outcome:
  assumes "valid self"
  shows "(\<exists>r. scan_schedule self d = Some (Inr r) \<and>
        (mset (sequence r) = mset (request_queue self) \<or>
         mset (sequence r) = mset (request_queue self) + {#boundary self d#}) \<and>
        movements r = rewalk (current_head self) (sequence r) \<and>
        total_movement r = sum_list (movements r) \<and>
        final_position r = last (current_head self # sequence r)) \<or>
   scan_schedule self d = Some (Inl OverflowError)"
proof -
  from scan_schedule_run [OF assms, of d] obtain v :: dlocals where
    run: "scan_schedule self d = Some (finish ''SCAN'' (Some d) (request_queue self) v)"
    and m: "mset (v_sequence v) = mset (request_queue self) \<or>
        mset (v_sequence v) = mset (request_queue self) + {#boundary self d#}"
    and a: "accounted (current_head self) v" by blast
  from finish_outcome [of "''SCAN''" "Some d" "request_queue self" v]
  show ?thesis
  proof
    assume "finish ''SCAN'' (Some d) (request_queue self) v = Inl OverflowError \<and>
      seek_overflow (v_total_movement v) (request_queue self)"
    then show ?thesis by (simp add: run)
  next
    assume "\<exists>r. finish ''SCAN'' (Some d) (request_queue self) v = Inr r \<and>
        \<not> seek_overflow (v_total_movement v) (request_queue self) \<and>
        total_movement r = v_total_movement v \<and> sequence r = v_sequence v \<and>
        movements r = v_movements v \<and> final_position r = v_current_head v"
    then obtain r where r: "finish ''SCAN'' (Some d) (request_queue self) v = Inr r"
      "total_movement r = v_total_movement v" "sequence r = v_sequence v"
      "movements r = v_movements v" "final_position r = v_current_head v" by blast
    from accounted_result [OF a r(2-5)] r(1,3) m run show ?thesis by auto
  qed
qed

lemma scan_no_overflow:
  assumes "valid self" "total_cylinders self \<le> 2 ^ 1022"
  shows "scan_schedule self d \<noteq> Some (Inl OverflowError)"
proof -
  from scan_schedule_run [OF assms(1), of d] obtain v :: dlocals where
    run: "scan_schedule self d = Some (finish ''SCAN'' (Some d) (request_queue self) v)"
    and m: "mset (v_sequence v) = mset (request_queue self) \<or>
        mset (v_sequence v) = mset (request_queue self) + {#boundary self d#}"
    and a: "accounted (current_head self) v" by blast
  have "\<not> seek_overflow (v_total_movement v) (request_queue self)"
    using assms a m by (rule accounted_no_overflow)
  from finish_Inr [OF this, of "''SCAN''" "Some d"] show ?thesis by (auto simp: run)
qed

subsection \<open>The run of C-SCAN\<close>

lemma c_scan_jump_movements:
  "v_total_movement (c_scan_jump self v) =
      v_total_movement v + \<bar>v_current_head v - boundary self (v_current_direction v)\<bar>
        + (total_cylinders self - 1)"
  "v_movements (c_scan_jump self v) =
      v_movements v @ [\<bar>v_current_head v - boundary self (v_current_direction v)\<bar>]"
  by (simp_all add: c_scan_jump_def boundary_def)

lemma jumps_counted_serve:
  assumes "jumps_counted tc n v" "x \<in> set (v_requests v)"
  shows "jumps_counted tc n (serve x v)"
  using assms by (simp add: jumps_counted_def pool_serve)

lemma jumps_counted_jump:
  assumes "jumps_counted (total_cylinders self) n v"
  shows "jumps_counted (total_cylinders self) n (c_scan_jump self v)"
  using assms
  by (simp add: jumps_counted_def pool_c_scan_jump c_scan_jump_movements algebra_simps)

lemma paced_serve:
  assumes "paced tc v" "0 \<le> x" "x < tc"
  shows "paced tc (serve x v)"
proof -
  from assms have "\<bar>v_current_head v - x\<bar> \<le> tc - 1" by (simp add: paced_def) linarith
  with assms show ?thesis by (simp add: paced_def algebra_simps)
qed

lemma paced_jump:
  assumes "paced (total_cylinders self) v"
  shows "paced (total_cylinders self) (c_scan_jump self v)"
proof -
  from assms have h: "0 \<le> v_current_head v" "v_current_head v < total_cylinders self"
    by (simp_all add: paced_def)
  from boundary_cases [of self "v_current_direction v"] h
  have "\<bar>v_current_head v - boundary self (v_current_direction v)\<bar> \<le> total_cylinders self - 1"
    by auto
  with assms h show ?thesis
    by (simp add: paced_def c_scan_jump_movements algebra_simps)
qed

lemma c_scan_run_total:
  assumes "in_range (total_cylinders self) v" "conserved rs (boundary self d0) d0 v"
    "jumps_counted (total_cylinders self) n v" "paced (total_cylinders self) v"
  shows "\<exists>v'. c_scan_loop self v = Some (Inr v') \<and> v_requests v' = []
           \<and> conserved rs (boundary self d0) d0 v'
           \<and> jumps_counted (total_cylinders self) n v' \<and> paced (total_cylinders self) v'"
proof -
  let ?I = "\<lambda>v. in_range (total_cylinders self) v \<and> conserved rs (boundary self d0) d0 v
              \<and> jumps_counted (total_cylinders self) n v \<and> paced (total_cylinders self) v"
  have "\<exists>v'. c_scan_step self v = Inr v' \<and> ?I v' \<and> rank v' < rank v"
    if i: "?I v" and ne: "v_requests v \<noteq> []" for v
  proof (cases "serviceable v")
    case True
    then have mem: "next_request v \<in> set (v_requests v)" by (rule next_request_in)
    with i have "0 \<le> next_request v" "next_request v < total_cylinders self"
      by (auto simp: in_range_def list_all_iff)
    with i have "paced (total_cylinders self) (serve (next_request v) v)"
      by (intro paced_serve) simp_all
    with True i mem show ?thesis
      by (simp add: c_scan_step_serve in_range_serve conserved_serve rank_serve
          jumps_counted_serve)
  next
    case False
    with i ne have "rank (c_scan_jump self v) < rank v"
      by (intro rank_settled settled_c_scan_jump) simp_all
    with False i ne show ?thesis
      by (simp add: c_scan_step_jump in_range_c_scan_jump conserved_c_scan_jump
          jumps_counted_jump paced_jump)
  qed
  from c_scan_loop_total [where I = ?I and m = rank, OF _ this] assms
  show ?thesis by blast
qed

lemma c_scan_schedule_run:
  assumes "valid self"
  shows "\<exists>v :: dlocals.
       c_scan_schedule self d = Some (finish ''C-SCAN'' (Some d) (request_queue self) v) \<and>
       (mset (v_sequence v) = mset (request_queue self) \<or>
        mset (v_sequence v) = mset (request_queue self) + {#boundary self d#}) \<and>
       v_total_movement v = sum_list (v_movements v) +
         (total_cylinders self - 1) *
           (int (length (v_sequence v)) - int (length (request_queue self))) \<and>
       0 \<le> sum_list (v_movements v) \<and>
       sum_list (v_movements v) \<le> (total_cylinders self - 1) * int (length (v_sequence v))"
proof -
  have j: "jumps_counted (total_cylinders self) (length (request_queue self)) (initial_d self d)"
    by (simp add: jumps_counted_def initial_facts) (simp add: initial_d_def)
  have p: "paced (total_cylinders self) (initial_d self d)"
    using assms by (simp add: paced_def valid_def initial_d_def)
  from c_scan_run_total [of self "initial_d self d" "request_queue self" d
      "length (request_queue self)"] assms j p
  obtain v' where
    run: "c_scan_loop self (initial_d self d) = Some (Inr v')" and e: "v_requests v' = []"
    and c: "conserved (request_queue self) (boundary self d) d v'"
    and j': "jumps_counted (total_cylinders self) (length (request_queue self)) v'"
    and p': "paced (total_cylinders self) v'"
    by (auto simp: initial_facts)
  from run have 1: "c_scan_schedule self d =
      Some (finish ''C-SCAN'' (Some d) (request_queue self) v')"
    by (simp add: c_scan_schedule_def flip: initial_d_def)
  have 2: "v_total_movement v' = sum_list (v_movements v') +
         (total_cylinders self - 1) *
           (int (length (v_sequence v')) - int (length (request_queue self)))"
    using j' e by (simp add: jumps_counted_def pool_def)
  have 3: "0 \<le> sum_list (v_movements v')"
    "sum_list (v_movements v') \<le> (total_cylinders self - 1) * int (length (v_sequence v'))"
    using p' by (simp_all add: paced_def)
  from 1 2 3 conserved_final [OF c e] show ?thesis by blast
qed

lemma c_scan_outcome:
  assumes "valid self"
  shows "(\<exists>r. c_scan_schedule self d = Some (Inr r) \<and>
        (mset (sequence r) = mset (request_queue self) \<or>
         mset (sequence r) = mset (request_queue self) + {#boundary self d#}) \<and>
        total_movement r = sum_list (movements r) +
          (total_cylinders self - 1) *
            (int (length (sequence r)) - int (length (request_queue self)))) \<or>
   c_scan_schedule self d = Some (Inl OverflowError)"
proof -
  from c_scan_schedule_run [OF assms, of d] obtain v :: dlocals where
    run: "c_scan_schedule self d = Some (finish ''C-SCAN'' (Some d) (request_queue self) v)"
    and m: "mset (v_sequence v) = mset (request_queue self) \<or>
        mset (v_sequence v) = mset (request_queue self) + {#boundary self d#}"
    and t: "v_total_movement v = sum_list (v_movements v) +
         (total_cylinders self - 1) *
           (int (length (v_sequence v)) - int (length (request_queue self)))" by blast
  from finish_outcome [of "''C-SCAN''" "Some d" "request_queue self" v]
  show ?thesis
  proof
    assume "finish ''C-SCAN'' (Some d) (request_queue self) v = Inl OverflowError \<and>
      seek_overflow (v_total_movement v) (request_queue self)"
    then show ?thesis by (simp add: run)
  next
    assume "\<exists>r. finish ''C-SCAN'' (Some d) (request_queue self) v = Inr r \<and>
        \<not> seek_overflow (v_total_movement v) (request_queue self) \<and>
        total_movement r = v_total_movement v \<and> sequence r = v_sequence v \<and>
        movements r = v_movements v \<and> final_position r = v_current_head v"
    then obtain r where r: "finish ''C-SCAN'' (Some d) (request_queue self) v = Inr r"
      "total_movement r = v_total_movement v" "sequence r = v_sequence v"
      "movements r = v_movements v" by blast
    with m t run show ?thesis by auto
  qed
qed

lemma c_scan_no_overflow:
  assumes "valid self" "total_cylinders self \<le> 2 ^ 1022"
  shows "c_scan_schedule self d \<noteq> Some (Inl OverflowError)"
proof -
  from c_scan_schedule_run [OF assms(1), of d] obtain v :: dlocals where
    run: "c_scan_schedule self d = Some (finish ''C-SCAN'' (Some d) (request_queue self) v)"
    and m: "mset (v_sequence v) = mset (request_queue self) \<or>
        mset (v_sequence v) = mset (request_queue self) + {#boundary self d#}"
    and t: "v_total_movement v = sum_list (v_movements v) +
         (total_cylinders self - 1) *
           (int (length (v_sequence v)) - int (length (request_queue self)))"
    and lo: "0 \<le> sum_list (v_movements v)"
    and hi: "sum_list (v_movements v) \<le> (total_cylinders self - 1) * int (length (v_sequence v))"
    by blast
  define c where "c = total_cylinders self - 1"
  define n where "n = int (length (request_queue self))"
  define k where "k = int (length (v_sequence v))"
  have c: "0 \<le> c" using assms(1) by (simp add: c_def valid_def)
  from final_shape(2,3) [OF m] have k: "n \<le> k" "k \<le> n + 1" by (simp_all add: n_def k_def)
  have t': "v_total_movement v = sum_list (v_movements v) + c * (k - n)"
    using t by (simp add: c_def n_def k_def)
  have "0 \<le> c * (k - n)" using c k by simp
  with lo have 1: "0 \<le> v_total_movement v" by (simp add: t')
  have "c * k \<le> c * (n + 1)" using c k by (intro mult_left_mono)
  moreover have "c * (k - n) \<le> c * 1" using c k by (intro mult_left_mono) simp_all
  ultimately have "v_total_movement v \<le> c * (n + 1) + c * 1"
    using hi by (simp add: t' c_def k_def)
  then have 2: "v_total_movement v \<le> c * (n + 2)" by (simp add: algebra_simps)
  have "\<not> seek_overflow (v_total_movement v) (request_queue self)"
    using 1 2 assms(2) unfolding c_def n_def by (rule no_seek_overflow)
  from finish_Inr [OF this, of "''C-SCAN''" "Some d"] show ?thesis by (auto simp: run)
qed

subsection \<open>The sequence as a permutation of the requests\<close>

text \<open>
  C7: on valid inputs each of the four methods ends, either in a result or in the
  overflow of the final average; with at most \<open>2 ^ 1022\<close> cylinders it always ends in
  a result.  The sequence of a result is a permutation (with multiplicity) of the
  original request list, apart from the synthetic boundary visit of SCAN and
  C-SCAN: for these the sequence is, as a multiset, the request list alone or the
  request list and one visit of the boundary of the initial direction
  (\<open>total_cylinders - 1\<close> for \<^verbatim>\<open>'right'\<close>, 0 otherwise).
\<close>

theorem serviced_is_permutation:
  assumes "valid self"
  shows "((\<exists>r. fcfs_schedule self = Inr r \<and> mset (sequence r) = mset (request_queue self)) \<or>
          fcfs_schedule self = Inl OverflowError) \<and>
         ((\<exists>r. sstf_schedule self = Inr r \<and> mset (sequence r) = mset (request_queue self)) \<or>
          sstf_schedule self = Inl OverflowError) \<and>
         ((\<exists>r. scan_schedule self d = Some (Inr r) \<and>
              (mset (sequence r) = mset (request_queue self) \<or>
               mset (sequence r) = mset (request_queue self) + {#boundary self d#})) \<or>
          scan_schedule self d = Some (Inl OverflowError)) \<and>
         ((\<exists>r. c_scan_schedule self d = Some (Inr r) \<and>
              (mset (sequence r) = mset (request_queue self) \<or>
               mset (sequence r) = mset (request_queue self) + {#boundary self d#})) \<or>
          c_scan_schedule self d = Some (Inl OverflowError)) \<and>
         (total_cylinders self \<le> 2 ^ 1022 \<longrightarrow>
            fcfs_schedule self \<noteq> Inl OverflowError \<and>
            sstf_schedule self \<noteq> Inl OverflowError \<and>
            scan_schedule self d \<noteq> Some (Inl OverflowError) \<and>
            c_scan_schedule self d \<noteq> Some (Inl OverflowError))"
proof -
  have "(\<exists>r. fcfs_schedule self = Inr r \<and> mset (sequence r) = mset (request_queue self)) \<or>
          fcfs_schedule self = Inl OverflowError"
    using fcfs_outcome [of self] by auto
  moreover have "(\<exists>r. sstf_schedule self = Inr r \<and>
            mset (sequence r) = mset (request_queue self)) \<or>
          sstf_schedule self = Inl OverflowError"
    using sstf_outcome [of self] by auto
  moreover have "(\<exists>r. scan_schedule self d = Some (Inr r) \<and>
              (mset (sequence r) = mset (request_queue self) \<or>
               mset (sequence r) = mset (request_queue self) + {#boundary self d#})) \<or>
          scan_schedule self d = Some (Inl OverflowError)"
    using scan_outcome [OF assms, of d] by auto
  moreover have "(\<exists>r. c_scan_schedule self d = Some (Inr r) \<and>
              (mset (sequence r) = mset (request_queue self) \<or>
               mset (sequence r) = mset (request_queue self) + {#boundary self d#})) \<or>
          c_scan_schedule self d = Some (Inl OverflowError)"
    using c_scan_outcome [OF assms, of d] by auto
  ultimately show ?thesis
    using fcfs_no_overflow [OF assms] sstf_no_overflow [OF assms]
      scan_no_overflow [OF assms] c_scan_no_overflow [OF assms]
    by blast
qed

theorem serviced_is_permutation_witness:
  "valid (Disk_init 200 50 [82, 170, 43, 140, 24, 16, 190]) \<and>
   total_cylinders (Disk_init 200 50 [82, 170, 43, 140, 24, 16, 190]) \<le> 2 ^ 1022 \<and>
   (\<exists>r. fcfs_schedule (Disk_init 200 50 [82, 170, 43, 140, 24, 16, 190]) = Inr r \<and>
        mset (sequence r) = mset (request_queue (Disk_init 200 50 [82, 170, 43, 140, 24, 16, 190]))) \<and>
   (\<exists>r. sstf_schedule (Disk_init 200 50 [82, 170, 43, 140, 24, 16, 190]) = Inr r \<and>
        mset (sequence r) = mset (request_queue (Disk_init 200 50 [82, 170, 43, 140, 24, 16, 190]))) \<and>
   (\<exists>r. scan_schedule (Disk_init 200 50 [82, 170, 43, 140, 24, 16, 190]) ''right'' = Some (Inr r) \<and>
        (mset (sequence r) = mset (request_queue (Disk_init 200 50 [82, 170, 43, 140, 24, 16, 190])) \<or>
         mset (sequence r) = mset (request_queue (Disk_init 200 50 [82, 170, 43, 140, 24, 16, 190]))
            + {#boundary (Disk_init 200 50 [82, 170, 43, 140, 24, 16, 190]) ''right''#})) \<and>
   (\<exists>r. c_scan_schedule (Disk_init 200 50 [82, 170, 43, 140, 24, 16, 190]) ''right'' = Some (Inr r) \<and>
        (mset (sequence r) = mset (request_queue (Disk_init 200 50 [82, 170, 43, 140, 24, 16, 190])) \<or>
         mset (sequence r) = mset (request_queue (Disk_init 200 50 [82, 170, 43, 140, 24, 16, 190]))
            + {#boundary (Disk_init 200 50 [82, 170, 43, 140, 24, 16, 190]) ''right''#}))"
proof -
  have v: "valid (Disk_init 200 50 [82, 170, 43, 140, 24, 16, 190])"
    by (simp add: valid_def Disk_init_def)
  have b: "total_cylinders (Disk_init 200 50 [82, 170, 43, 140, 24, 16, 190]) \<le> 2 ^ 1022"
    by (simp add: Disk_init_def)
  from v b serviced_is_permutation [OF v, of "''right''"] show ?thesis
    by blast
qed

subsection \<open>The empty queue\<close>

text \<open>
  C8: with an empty request list each of the four methods returns a result (no
  division fault) whose sequence is empty, whose total movement and average seek
  are 0 and whose final position is the start head, for every number of cylinders,
  start head and direction.
\<close>

theorem empty_queue_results:
  "fcfs_schedule (Disk_init tc h []) =
     Inr \<lparr>algorithm = ''FCFS'', total_movement = 0, average_seek = 0, sequence = [],
          movements = [], final_position = h, direction = None\<rparr> \<and>
   sstf_schedule (Disk_init tc h []) =
     Inr \<lparr>algorithm = ''SSTF'', total_movement = 0, average_seek = 0, sequence = [],
          movements = [], final_position = h, direction = None\<rparr> \<and>
   scan_schedule (Disk_init tc h []) dir =
     Some (Inr \<lparr>algorithm = ''SCAN'', total_movement = 0, average_seek = 0, sequence = [],
          movements = [], final_position = h, direction = Some dir\<rparr>) \<and>
   c_scan_schedule (Disk_init tc h []) dir =
     Some (Inr \<lparr>algorithm = ''C-SCAN'', total_movement = 0, average_seek = 0, sequence = [],
          movements = [], final_position = h, direction = Some dir\<rparr>)"
  by (simp add: fcfs_schedule_def sstf_schedule_def scan_schedule_def c_scan_schedule_def
      Disk_init_def finish_def average_def sstf_loop.simps scan_loop.simps c_scan_loop.simps)

subsection \<open>The examples of the specification\<close>

text \<open>
  C4: SCAN on 200 cylinders from head 50 with requests 82, 170, 43, 140, 24, 16,
  190, direction right: visits 82, 140, 170, 190 in increasing order, then the
  boundary 199 as a step of its own, then 43, 24, 16, and ends at 16.
\<close>

theorem scan_example:
  "\<exists>r. scan_schedule (Disk_init 200 50 [82, 170, 43, 140, 24, 16, 190]) ''right''
         = Some (Inr r) \<and>
       sequence r = [82, 140, 170, 190, 199, 43, 24, 16] \<and>
       movements r = [32, 58, 30, 20, 9, 156, 19, 8] \<and>
       total_movement r = 332 \<and> final_position r = 16"
  by (simp add: scan_schedule_def Disk_init_def scan_loop.simps scan_step_def py_remove_def
      finish_def average_def py_truediv_def double_overflow_def)

text \<open>
  C3: C-SCAN on the same input: visits 82, 140, 170, 190, then the boundary 199;
  the iteration that visits the boundary also jumps to cylinder 0 and adds the
  cost 199 of the jump to the total (140 + 9 + 199 = 348 after it); then 16, 24,
  43 from 0; the final position is 43 and the total 391.
\<close>

theorem c_scan_example:
  "(\<exists>r. c_scan_schedule (Disk_init 200 50 [82, 170, 43, 140, 24, 16, 190]) ''right''
         = Some (Inr r) \<and>
       sequence r = [82, 140, 170, 190, 199, 16, 24, 43] \<and>
       movements r = [32, 58, 30, 20, 9, 16, 8, 19] \<and>
       total_movement r = 32 + 58 + 30 + 20 + 9 + 199 + 16 + 8 + 19 \<and>
       final_position r = 43) \<and>
   c_scan_step (Disk_init 200 50 [82, 170, 43, 140, 24, 16, 190])
       \<lparr>v_current_head = 190, v_requests = [43, 24, 16], v_total_movement = 140,
        v_sequence = [82, 140, 170, 190], v_movements = [32, 58, 30, 20],
        v_current_direction = ''right''\<rparr> =
     Inr \<lparr>v_current_head = 0, v_requests = [43, 24, 16], v_total_movement = 140 + 9 + 199,
          v_sequence = [82, 140, 170, 190, 199], v_movements = [32, 58, 30, 20, 9],
          v_current_direction = ''right''\<rparr>"
  by (simp add: c_scan_schedule_def Disk_init_def c_scan_loop.simps c_scan_step_def
      py_remove_def finish_def average_def py_truediv_def double_overflow_def)

text \<open>
  C1 at the input of C3: the total of C-SCAN is 391, the sum of its movements is
  192 and re-walking its sequence from the start head gives 359.  The jump is added
  to the total but recorded neither in \<open>movements\<close> nor in \<open>sequence\<close>.
\<close>

theorem c_scan_total_not_sum_of_movements:
  "\<exists>r. c_scan_schedule (Disk_init 200 50 [82, 170, 43, 140, 24, 16, 190]) ''right''
         = Some (Inr r) \<and>
       total_movement r = 391 \<and> sum_list (movements r) = 192 \<and>
       sum_list (rewalk 50 (sequence r)) = 359"
  by (simp add: c_scan_schedule_def Disk_init_def c_scan_loop.simps c_scan_step_def
      py_remove_def finish_def average_def py_truediv_def double_overflow_def)

subsection \<open>The second implementation\<close>

text \<open>
  C10: \<open>c_scan_schedule\<close> of the second implementation, called with a direction
  other than \<^verbatim>\<open>'right'\<close>, returns total movement 0 and the empty sequence,
  whatever the disk and the requests.
\<close>

theorem demo_c_scan_other_direction:
  "direction' \<noteq> ''right'' \<Longrightarrow> demo_c_scan_schedule self direction' = (0, [])"
  by (simp add: demo_c_scan_schedule_def)

theorem demo_c_scan_other_direction_witness:
  "''left'' \<noteq> ''right'' \<and> 
   demo_c_scan_schedule (Disk_init 200 50 [82, 170, 43, 140, 24, 16, 190]) ''left'' = (0, [])"
  using demo_c_scan_other_direction [of "''left''" "Disk_init 200 50 [82, 170, 43, 140, 24, 16, 190]"]
  by simp

subsection \<open>The two implementations of SCAN\<close>

lemma sort_Min:
  fixes xs :: "int list"
  assumes "xs \<noteq> []"
  shows "sort xs = Min (set xs) # sort (remove1 (Min (set xs)) xs)"
proof (rule properties_for_sort)
  have "Min (set xs) \<in> set xs" using assms by (intro Min_in) simp_all
  then show "mset (Min (set xs) # sort (remove1 (Min (set xs)) xs)) = mset xs"
    by simp
  have "set (remove1 (Min (set xs)) xs) \<subseteq> set xs" by (rule set_remove1_subset)
  then have "\<forall>x\<in>set (remove1 (Min (set xs)) xs). Min (set xs) \<le> x"
    by (auto intro: Min_le)
  then show "sorted (Min (set xs) # sort (remove1 (Min (set xs)) xs))"
    by simp
qed

lemma sort_Max:
  fixes xs :: "int list"
  assumes "xs \<noteq> []"
  shows "sort xs = sort (remove1 (Max (set xs)) xs) @ [Max (set xs)]"
proof (rule properties_for_sort)
  have "Max (set xs) \<in> set xs" using assms by (intro Max_in) simp_all
  then show "mset (sort (remove1 (Max (set xs)) xs) @ [Max (set xs)]) = mset xs"
    by simp
  have "set (remove1 (Max (set xs)) xs) \<subseteq> set xs" by (rule set_remove1_subset)
  then have "\<forall>x\<in>set (remove1 (Max (set xs)) xs). x \<le> Max (set xs)"
    by (auto intro: Max_ge)
  then show "sorted (sort (remove1 (Max (set xs)) xs) @ [Max (set xs)])"
    by (simp add: sorted_append)
qed

lemma filter_after_Min:
  fixes rs :: "int list"
  assumes "filter (\<lambda>r. r \<ge> h) rs \<noteq> []"
  defines "m \<equiv> Min (set (filter (\<lambda>r. r \<ge> h) rs))"
  shows "filter (\<lambda>r. r \<ge> m) (remove1 m rs) = remove1 m (filter (\<lambda>r. r \<ge> h) rs)"
    and "filter (\<lambda>r. r < m) (remove1 m rs) = filter (\<lambda>r. r < h) rs"
proof -
  have "set (filter (\<lambda>r. r \<ge> h) rs) \<noteq> {}"
    using assms(1) by (simp del: set_filter)
  then have "m \<in> set (filter (\<lambda>r. r \<ge> h) rs)"
    unfolding m_def by (intro Min_in finite_set)
  then have hm: "h \<le> m" by simp
  have le: "m \<le> r" if "r \<in> set rs" "h \<le> r" for r
    unfolding m_def using that by (intro Min_le) simp_all
  have "filter (\<lambda>r. r \<ge> m) rs = filter (\<lambda>r. r \<ge> h) rs"
    using hm le by (intro filter_cong) auto
  then show "filter (\<lambda>r. r \<ge> m) (remove1 m rs) = remove1 m (filter (\<lambda>r. r \<ge> h) rs)"
    by (simp add: filter_remove1)
  have "filter (\<lambda>r. r < m) rs = filter (\<lambda>r. r < h) rs"
    using hm le by (intro filter_cong) force+
  moreover have "m \<notin> set (filter (\<lambda>r. r < m) rs)" by simp
  ultimately show "filter (\<lambda>r. r < m) (remove1 m rs) = filter (\<lambda>r. r < h) rs"
    by (simp add: filter_remove1 remove1_idem)
qed

lemma filter_after_Max:
  fixes rs :: "int list"
  assumes "filter (\<lambda>r. r \<le> h) rs \<noteq> []"
  defines "m \<equiv> Max (set (filter (\<lambda>r. r \<le> h) rs))"
  shows "filter (\<lambda>r. r \<le> m) (remove1 m rs) = remove1 m (filter (\<lambda>r. r \<le> h) rs)"
    and "filter (\<lambda>r. r > m) (remove1 m rs) = filter (\<lambda>r. r > h) rs"
proof -
  have "set (filter (\<lambda>r. r \<le> h) rs) \<noteq> {}"
    using assms(1) by (simp del: set_filter)
  then have "m \<in> set (filter (\<lambda>r. r \<le> h) rs)"
    unfolding m_def by (intro Max_in finite_set)
  then have hm: "m \<le> h" by simp
  have le: "r \<le> m" if "r \<in> set rs" "r \<le> h" for r
    unfolding m_def using that by (intro Max_ge) simp_all
  have "filter (\<lambda>r. r \<le> m) rs = filter (\<lambda>r. r \<le> h) rs"
    using hm le by (intro filter_cong) auto
  then show "filter (\<lambda>r. r \<le> m) (remove1 m rs) = remove1 m (filter (\<lambda>r. r \<le> h) rs)"
    by (simp add: filter_remove1)
  have "filter (\<lambda>r. r > m) rs = filter (\<lambda>r. r > h) rs"
    using hm le by (intro filter_cong) force+
  moreover have "m \<notin> set (filter (\<lambda>r. r > m) rs)" by simp
  ultimately show "filter (\<lambda>r. r > m) (remove1 m rs) = filter (\<lambda>r. r > h) rs"
    by (simp add: filter_remove1 remove1_idem)
qed

lemma sweep_Nil: "sweep [] (v_requests v) v = v"
  by (simp add: sweep_def)

lemma sweep_Cons: "sweep (x # xs) rest v = sweep xs rest (serve x v)"
  by (simp add: sweep_def serve_def)


lemma scan_ascend:
  assumes "v_current_direction v = ''right''"
  shows "scan_loop self v =
     scan_loop self
       (sweep (sort (filter (\<lambda>r. r \<ge> v_current_head v) (v_requests v)))
              (filter (\<lambda>r. r < v_current_head v) (v_requests v)) v)"
  using assms
proof (induction "length (filter (\<lambda>r. r \<ge> v_current_head v) (v_requests v))" arbitrary: v)
  case 0
  then have e: "filter (\<lambda>r. r \<ge> v_current_head v) (v_requests v) = []" by simp
  then have "\<forall>r\<in>set (v_requests v). r < v_current_head v"
    by (auto simp: filter_empty_conv)
  then have "filter (\<lambda>r. r < v_current_head v) (v_requests v) = v_requests v"
    by (simp add: filter_id_conv)
  with e show ?case by (simp add: sweep_Nil)
next
  case (Suc n)
  let ?R = "filter (\<lambda>r. r \<ge> v_current_head v) (v_requests v)"
  have ne: "?R \<noteq> []" using Suc.hyps(2) by auto
  then have rq: "v_requests v \<noteq> []" by auto
  have sv: "serviceable v" using ne Suc.prems by (simp add: serviceable_def)
  define m where "m = Min (set ?R)"
  have nr: "next_request v = m" using Suc.prems by (simp add: m_def next_request_def)
  have "set ?R \<noteq> {}" using ne by (simp del: set_filter)
  then have mem: "m \<in> set ?R" unfolding m_def by (intro Min_in finite_set)
  have step: "scan_loop self v = scan_loop self (serve m v)"
    using rq sv by (subst scan_loop.simps) (simp add: scan_step_serve nr)
  have f1: "filter (\<lambda>r. r \<ge> m) (remove1 m (v_requests v)) = remove1 m ?R"
    and f2: "filter (\<lambda>r. r < m) (remove1 m (v_requests v))
               = filter (\<lambda>r. r < v_current_head v) (v_requests v)"
    using filter_after_Min [OF ne] unfolding m_def by blast+
  have "length (remove1 m ?R) = length ?R - 1"
    using mem by (simp only: length_remove1 if_True)
  with Suc.hyps(2) have len: "n = length (filter (\<lambda>r. r \<ge> v_current_head (serve m v))
                                             (v_requests (serve m v)))"
    by (simp add: f1)
  have "scan_loop self (serve m v) =
     scan_loop self
       (sweep (sort (filter (\<lambda>r. r \<ge> v_current_head (serve m v)) (v_requests (serve m v))))
              (filter (\<lambda>r. r < v_current_head (serve m v)) (v_requests (serve m v)))
              (serve m v))"
    using Suc.prems by (intro Suc.hyps(1) len) simp
  then have ih: "scan_loop self (serve m v) =
     scan_loop self (sweep (sort (remove1 m ?R))
                      (filter (\<lambda>r. r < v_current_head v) (v_requests v)) (serve m v))"
    by (simp add: f1 f2)
  have "sort ?R = m # sort (remove1 m ?R)"
    using sort_Min [OF ne] by (simp add: m_def)
  with step ih show ?case by (simp add: sweep_Cons)
qed

lemma scan_descend:
  assumes "v_current_direction v \<noteq> ''right''"
  shows "scan_loop self v =
     scan_loop self
       (sweep (rev (sort (filter (\<lambda>r. r \<le> v_current_head v) (v_requests v))))
              (filter (\<lambda>r. r > v_current_head v) (v_requests v)) v)"
  using assms
proof (induction "length (filter (\<lambda>r. r \<le> v_current_head v) (v_requests v))" arbitrary: v)
  case 0
  then have e: "filter (\<lambda>r. r \<le> v_current_head v) (v_requests v) = []" by simp
  then have "\<forall>r\<in>set (v_requests v). r > v_current_head v"
    by (auto simp: filter_empty_conv)
  then have "filter (\<lambda>r. r > v_current_head v) (v_requests v) = v_requests v"
    by (simp add: filter_id_conv)
  with e show ?case by (simp add: sweep_Nil)
next
  case (Suc n)
  let ?L = "filter (\<lambda>r. r \<le> v_current_head v) (v_requests v)"
  have ne: "?L \<noteq> []" using Suc.hyps(2) by auto
  then have rq: "v_requests v \<noteq> []" by auto
  have sv: "serviceable v" using ne Suc.prems by (simp add: serviceable_def)
  define m where "m = Max (set ?L)"
  have nr: "next_request v = m" using Suc.prems by (simp add: m_def next_request_def)
  have "set ?L \<noteq> {}" using ne by (simp del: set_filter)
  then have mem: "m \<in> set ?L" unfolding m_def by (intro Max_in finite_set)
  have step: "scan_loop self v = scan_loop self (serve m v)"
    using rq sv by (subst scan_loop.simps) (simp add: scan_step_serve nr)
  have f1: "filter (\<lambda>r. r \<le> m) (remove1 m (v_requests v)) = remove1 m ?L"
    and f2: "filter (\<lambda>r. r > m) (remove1 m (v_requests v))
               = filter (\<lambda>r. r > v_current_head v) (v_requests v)"
    using filter_after_Max [OF ne] unfolding m_def by blast+
  have "length (remove1 m ?L) = length ?L - 1"
    using mem by (simp only: length_remove1 if_True)
  with Suc.hyps(2) have len: "n = length (filter (\<lambda>r. r \<le> v_current_head (serve m v))
                                             (v_requests (serve m v)))"
    by (simp add: f1)
  have "scan_loop self (serve m v) =
     scan_loop self
       (sweep (rev (sort (filter (\<lambda>r. r \<le> v_current_head (serve m v)) (v_requests (serve m v)))))
              (filter (\<lambda>r. r > v_current_head (serve m v)) (v_requests (serve m v)))
              (serve m v))"
    using Suc.prems by (intro Suc.hyps(1) len) simp
  then have ih: "scan_loop self (serve m v) =
     scan_loop self (sweep (rev (sort (remove1 m ?L)))
                      (filter (\<lambda>r. r > v_current_head v) (v_requests v)) (serve m v))"
    by (simp add: f1 f2)
  have "rev (sort ?L) = m # rev (sort (remove1 m ?L))"
    using sort_Max [OF ne] by (simp add: m_def)
  with step ih show ?case by (simp add: sweep_Cons)
qed


lemma sweep_fields [simp]:
  "v_requests (sweep xs rest v) = rest"
  "v_sequence (sweep xs rest v) = v_sequence v @ xs"
  "v_current_head (sweep xs rest v) = last (v_current_head v # xs)"
  by (simp_all add: sweep_def)

lemma sweep_direction [simp]: "v_current_direction (sweep xs rest v) = v_current_direction v"
  by (simp add: sweep_def)

lemma demo_for_eq:
  "demo_for xs (h, t, s) = (last (h # xs), t + sum_list (rewalk h xs), s @ xs)"
  by (induction xs arbitrary: h t s) simp_all

lemma demo_scan_right:
  "demo_scan_schedule self ''right'' =
     (sum_list (rewalk (current_head self)
        (filter (\<lambda>r. r \<ge> current_head self) (sort (request_queue self)) @
         rev (filter (\<lambda>r. r < current_head self) (sort (request_queue self))))),
      filter (\<lambda>r. r \<ge> current_head self) (sort (request_queue self)) @
      rev (filter (\<lambda>r. r < current_head self) (sort (request_queue self))))"
  by (simp add: demo_scan_schedule_def Let_def demo_for_eq del: last.simps)

lemma last_ge:
  fixes h :: int
  assumes "\<forall>x\<in>set xs. h \<le> x"
  shows "h \<le> last (h # xs)"
proof -
  have "last (h # xs) \<in> set (h # xs)" by (rule last_in_set) simp
  with assms show ?thesis by auto
qed

lemma last_less:
  fixes h :: int
  assumes "\<forall>x\<in>set xs. x < b" "h < b"
  shows "last (h # xs) < b"
proof -
  have "last (h # xs) \<in> set (h # xs)" by (rule last_in_set) simp
  with assms show ?thesis by auto
qed

lemma scan_right_sequence:
  assumes "valid self"
  defines "R \<equiv> sort (filter (\<lambda>r. r \<ge> current_head self) (request_queue self))"
    and "L \<equiv> filter (\<lambda>r. r < current_head self) (request_queue self)"
  shows "\<exists>v'. scan_loop self (initial_d self ''right'') = Some (Inr v') \<and>
     v_sequence v' = R @ (if L = [] then [] else [total_cylinders self - 1]) @ rev (sort L)"
proof -
  define v0 where "v0 = initial_d self ''right''"
  define v1 where "v1 = sweep R L v0"
  have v0: "v_current_direction v0 = ''right''" "v_current_head v0 = current_head self"
    "v_requests v0 = request_queue self" "v_sequence v0 = []"
    by (simp_all add: v0_def initial_d_def)
  have a: "scan_loop self v0 = scan_loop self v1"
    using scan_ascend [of v0 self] v0 by (simp add: v1_def R_def L_def)
  have v1: "v_current_direction v1 = ''right''" "v_requests v1 = L" "v_sequence v1 = R"
    "v_current_head v1 = last (current_head self # R)"
    by (simp_all add: v1_def v0)
  show ?thesis
  proof (cases "L = []")
    case True
    then have "scan_loop self v1 = Some (Inr v1)"
      by (subst scan_loop.simps) (simp add: v1)
    with a True show ?thesis by (simp add: v0_def v1)
  next
    case False
    have "current_head self \<le> last (current_head self # R)"
      by (rule last_ge) (simp add: R_def)
    then have "filter (\<lambda>r. r \<ge> v_current_head v1) (v_requests v1) = []"
      by (auto simp: v1 L_def filter_empty_conv)
    then have ns: "\<not> serviceable v1" by (simp add: serviceable_def v1)
    define v2 where "v2 = scan_turn self v1"
    have b: "scan_loop self v1 = scan_loop self v2"
      using False ns by (subst scan_loop.simps) (simp add: v1 scan_step_turn v2_def)
    have v2: "v_current_direction v2 \<noteq> ''right''" "v_requests v2 = L"
      "v_sequence v2 = R @ [total_cylinders self - 1]"
      "v_current_head v2 = total_cylinders self - 1"
      by (simp_all add: v2_def v1 boundary_def)
    have rng: "\<forall>r\<in>set L. r \<le> total_cylinders self - 1"
      using assms(1) by (auto simp: valid_def L_def list_all_iff)
    then have f1: "filter (\<lambda>r. r \<le> total_cylinders self - 1) L = L"
      by (simp add: filter_id_conv)
    from rng have f2: "filter (\<lambda>r. r > total_cylinders self - 1) L = []"
      by (auto simp: filter_empty_conv)
    define v3 where "v3 = sweep (rev (sort L)) [] v2"
    have "scan_loop self v2 =
       scan_loop self
         (sweep (rev (sort (filter (\<lambda>r. r \<le> v_current_head v2) (v_requests v2))))
                (filter (\<lambda>r. r > v_current_head v2) (v_requests v2)) v2)"
      using v2(1) by (rule scan_descend)
    then have c: "scan_loop self v2 = scan_loop self v3"
      unfolding v2(2,4) f1 f2 v3_def .
    have "scan_loop self v3 = Some (Inr v3)"
      by (subst scan_loop.simps) (simp add: v3_def)
    with a b c False show ?thesis by (simp add: v0_def v3_def v2)
  qed
qed

lemma rewalk_detour:
  assumes "D \<noteq> []" "hd D \<le> last (h # R)" "last (h # R) \<le> b"
  shows "sum_list (rewalk h (R @ [b] @ D)) = sum_list (rewalk h (R @ D)) + 2 * (b - last (h # R))"
proof -
  from assms(1) obtain d D' where D: "D = d # D'" by (cases D) auto
  with assms(2,3) show ?thesis
    by (simp add: rewalk_append del: last.simps)
qed


text \<open>
  C9, as stated, fails: on 200 cylinders from head 50 with requests 82, 170, 43,
  140, 24, 16, 190 and direction right the first implementation moves the head by
  332 cylinders, the second by 314.
\<close>

theorem scan_totals_differ:
  "map_option (map_sum id total_movement)
     (scan_schedule (Disk_init 200 50 [82, 170, 43, 140, 24, 16, 190]) ''right'') = Some (Inr 332) \<and>
   fst (demo_scan_schedule (Disk_init 200 50 [82, 170, 43, 140, 24, 16, 190]) ''right'') = 314"
  by (simp add: scan_schedule_def Disk_init_def scan_loop.simps scan_step_def py_remove_def
      finish_def average_def py_truediv_def double_overflow_def demo_scan_schedule_def Let_def)

text \<open>
  C9, amended: on valid inputs with direction right both implementations service
  the requests in the same order, the requests not below the start head ascending
  and then the requests below it descending; the sequence of the first has, when
  some request lies below the start head, the boundary \<open>total_cylinders - 1\<close>
  between the two parts.  The totals are equal when no request lies below the start
  head; otherwise the first exceeds the second by twice the distance from the last
  cylinder of the ascending part (the start head when that part is empty) to the
  boundary, since the second implementation turns round without sweeping to the
  boundary.  The first implementation returns this result unless the average of
  that total over the requests is beyond the doubles, in which case its final
  division raises; with at most \<open>2 ^ 1022\<close> cylinders this does not happen.  The
  second implementation computes no average and always returns.
\<close>

theorem scan_implementations_compared:
  assumes "valid self"
  shows "let right = filter (\<lambda>x. x \<ge> current_head self) (sort (request_queue self));
             left = rev (filter (\<lambda>x. x < current_head self) (sort (request_queue self)));
             detour = (if left = [] then 0
                else 2 * (total_cylinders self - 1 - last (current_head self # right)))
         in snd (demo_scan_schedule self ''right'') = right @ left \<and>
            (if seek_overflow (fst (demo_scan_schedule self ''right'') + detour) (request_queue self)
             then scan_schedule self ''right'' = Some (Inl OverflowError)
             else \<exists>r. scan_schedule self ''right'' = Some (Inr r) \<and>
                sequence r = right @ (if left = [] then [] else [total_cylinders self - 1]) @ left \<and>
                total_movement r = fst (demo_scan_schedule self ''right'') + detour) \<and>
            (total_cylinders self \<le> 2 ^ 1022 \<longrightarrow>
               \<not> seek_overflow (fst (demo_scan_schedule self ''right'') + detour)
                  (request_queue self))"
proof -
  define h where "h = current_head self"
  define b where "b = total_cylinders self - 1"
  define R where "R = filter (\<lambda>x. x \<ge> h) (sort (request_queue self))"
  define D where "D = rev (filter (\<lambda>x. x < h) (sort (request_queue self)))"
  define t where "t = sum_list (rewalk h (R @ D)) + (if D = [] then 0 else 2 * (b - last (h # R)))"
  have R: "sort (filter (\<lambda>r. r \<ge> h) (request_queue self)) = R"
    by (simp add: R_def filter_sort)
  have D: "rev (sort (filter (\<lambda>r. r < h) (request_queue self))) = D"
    by (simp add: D_def filter_sort)
  have e: "filter (\<lambda>r. r < h) (request_queue self) = [] \<longleftrightarrow> D = []"
    by (simp add: D_def filter_empty_conv)
  from scan_right_sequence [OF assms] obtain v' where
    loop: "scan_loop self (initial_d self ''right'') = Some (Inr v')"
    and sq: "v_sequence v' = R @ (if D = [] then [] else [b]) @ D"
    unfolding R D e h_def [symmetric] b_def [symmetric] by blast
  from scan_schedule_run [OF assms, of "''right''"] obtain v :: dlocals where
    run: "scan_schedule self ''right'' =
       Some (finish ''SCAN'' (Some ''right'') (request_queue self) v)"
    and loop': "scan_loop self (initial_d self ''right'') = Some (Inr v)"
    and m: "mset (v_sequence v) = mset (request_queue self) \<or>
        mset (v_sequence v) = mset (request_queue self) + {#boundary self ''right''#}"
    and a: "accounted (current_head self) v"
    by blast
  from loop loop' have v: "v = v'" by simp
  from a have tm: "v_total_movement v = sum_list (rewalk h (v_sequence v))"
    by (simp add: accounted_def h_def)
  have seq: "v_sequence v = R @ (if D = [] then [] else [b]) @ D" using sq v by simp
  have demo: "demo_scan_schedule self ''right'' = (sum_list (rewalk h (R @ D)), R @ D)"
    unfolding R_def D_def h_def by (rule demo_scan_right)
  have total: "v_total_movement v = t"
  proof (cases "D = []")
    case True
    with seq tm show ?thesis by (simp add: t_def)
  next
    case False
    have "hd D \<in> set D" using False by simp
    then have "hd D < h" by (auto simp: D_def)
    moreover have "h \<le> last (h # R)" by (rule last_ge) (simp add: R_def)
    ultimately have 1: "hd D \<le> last (h # R)" by linarith
    have "h < total_cylinders self" "\<forall>x\<in>set R. x < total_cylinders self"
      using assms by (auto simp: valid_def h_def R_def list_all_iff)
    then have "last (h # R) < total_cylinders self" by (intro last_less) auto
    then have 2: "last (h # R) \<le> b" by (simp add: b_def)
    from rewalk_detour [OF False 1 2] seq tm False show ?thesis by (simp add: t_def)
  qed
  have 1: "scan_schedule self ''right'' = Some (Inl OverflowError)"
    if "seek_overflow t (request_queue self)"
    using that finish_Inl [of v "request_queue self" "''SCAN''" "Some ''right''"]
    by (simp add: run total)
  have 2: "\<exists>r. scan_schedule self ''right'' = Some (Inr r) \<and>
      sequence r = R @ (if D = [] then [] else [b]) @ D \<and> total_movement r = t"
    if "\<not> seek_overflow t (request_queue self)"
  proof -
    from that have "\<not> seek_overflow (v_total_movement v) (request_queue self)"
      by (simp add: total)
    from finish_Inr [OF this, of "''SCAN''" "Some ''right''"] obtain av where
      "finish ''SCAN'' (Some ''right'') (request_queue self) v =
         Inr \<lparr>algorithm = ''SCAN'', total_movement = v_total_movement v, average_seek = av,
              sequence = v_sequence v, movements = v_movements v,
              final_position = v_current_head v, direction = Some ''right''\<rparr>"
      by blast
    then show ?thesis by (simp add: run seq total)
  qed
  have 3: "\<not> seek_overflow t (request_queue self)" if "total_cylinders self \<le> 2 ^ 1022"
    using accounted_no_overflow [OF assms that a m] by (simp add: total)
  have 4: "snd (demo_scan_schedule self ''right'') = R @ D"
    "fst (demo_scan_schedule self ''right'') + (if D = [] then 0 else 2 * (b - last (h # R))) = t"
    by (simp_all add: demo t_def)
  from 1 2 3 show ?thesis
    unfolding Let_def h_def [symmetric] b_def [symmetric] R_def [symmetric] D_def [symmetric] 4
    by simp
qed

theorem scan_implementations_compared_witness:
  "valid (Disk_init 200 50 [82, 170, 43, 140, 24, 16, 190]) \<and>
   total_cylinders (Disk_init 200 50 [82, 170, 43, 140, 24, 16, 190]) \<le> 2 ^ 1022 \<and>
   snd (demo_scan_schedule (Disk_init 200 50 [82, 170, 43, 140, 24, 16, 190]) ''right'')
        = [82, 140, 170, 190] @ [43, 24, 16] \<and>
   \<not> seek_overflow
        (fst (demo_scan_schedule (Disk_init 200 50 [82, 170, 43, 140, 24, 16, 190]) ''right'')
           + 2 * (199 - 190)) [82, 170, 43, 140, 24, 16, 190] \<and>
   (\<exists>r. scan_schedule (Disk_init 200 50 [82, 170, 43, 140, 24, 16, 190]) ''right'' = Some (Inr r) \<and>
      sequence r = [82, 140, 170, 190] @ [199] @ [43, 24, 16] \<and>
      total_movement r =
        fst (demo_scan_schedule (Disk_init 200 50 [82, 170, 43, 140, 24, 16, 190]) ''right'')
          + 2 * (199 - 190))"
proof -
  have v: "valid (Disk_init 200 50 [82, 170, 43, 140, 24, 16, 190])"
    by (simp add: valid_def Disk_init_def)
  have f: "total_cylinders (Disk_init 200 50 [82, 170, 43, 140, 24, 16, 190]) = 200"
    "current_head (Disk_init 200 50 [82, 170, 43, 140, 24, 16, 190]) = 50"
    "request_queue (Disk_init 200 50 [82, 170, 43, 140, 24, 16, 190])
       = [82, 170, 43, 140, 24, 16, 190]"
    by (simp_all add: Disk_init_def)
  have d: "demo_scan_schedule (Disk_init 200 50 [82, 170, 43, 140, 24, 16, 190]) ''right''
      = (314, [82, 140, 170, 190, 43, 24, 16])"
    by (simp add: demo_scan_schedule_def Disk_init_def Let_def)
  have n: "\<not> seek_overflow 332 [82, 170, 43, 140, 24, 16, 190]"
    by (simp add: seek_overflow_def double_overflow_def)
  from scan_implementations_compared [OF v] v n show ?thesis
    by (simp add: f d Let_def)
qed

subsection \<open>Invalid inputs\<close>





lemma as_left_fields [simp]:
  "v_requests (as_left v) = v_requests v"
  "v_current_head (as_left v) = v_current_head v"
  "v_sequence (as_left v) = v_sequence v"
  "v_movements (as_left v) = v_movements v"
  "v_total_movement (as_left v) = v_total_movement v"
  "v_current_direction (as_left v) = ''right'' \<longleftrightarrow> v_current_direction v = ''right''"
  by (simp_all add: as_left_def)

lemma serviceable_as_left [simp]: "serviceable (as_left v) = serviceable v"
  by (simp add: serviceable_def)

lemma next_request_as_left [simp]: "next_request (as_left v) = next_request v"
  by (simp add: next_request_def)


















text \<open>With a request outside the cylinder range the loop of C-SCAN need not end:
  request \<open>-1\<close> is never at or above a head at 0.\<close>

lemma c_scan_loop_stuck:
  assumes "c_scan_loop self v = Some y"
  shows "\<not> (v_requests v = [-1] \<and> v_current_direction v = ''right'' \<and> 0 \<le> v_current_head v)"
proof (rule c_scan_loop.raw_induct
    [where P = "\<lambda>self v y. \<not> (v_requests v = [-1] \<and> v_current_direction v = ''right''
                              \<and> 0 \<le> v_current_head v)", OF _ assms], goal_cases)
  case (1 loop self v y)
  show ?case
  proof
    assume q: "v_requests v = [-1] \<and> v_current_direction v = ''right'' \<and> 0 \<le> v_current_head v"
    then have ns: "\<not> serviceable v" by (simp add: serviceable_def)
    with 1(2) q have "loop self (c_scan_jump self v) = Some y"
      by (simp add: c_scan_step_jump)
    from 1(1) [OF this] q show False by simp
  qed
qed

lemma c_scan_invalid_request_diverges:
  "c_scan_schedule (Disk_init 200 50 [-1]) ''right'' = None"
proof (cases "c_scan_loop (Disk_init 200 50 [-1]) (initial_d (Disk_init 200 50 [-1]) ''right'')")
  case None
  then show ?thesis by (simp add: c_scan_schedule_def flip: initial_d_def)
next
  case (Some y)
  from c_scan_loop_stuck [OF this] show ?thesis
    by (simp add: initial_d_def Disk_init_def)
qed




end
